theory Spec2Isabelle
  imports Main
begin

section \<open>The cache store (package cacheStore)\<close>

text \<open>
  Times are readings of Go's monotonic clock and durations are \<^verbatim>\<open>time.Duration\<close>
  values, both counted in nanoseconds. \<^verbatim>\<open>time.Since(t)\<close> and \<^verbatim>\<open>now.Sub(t)\<close> are the
  difference of two readings; the int64 range (about 292 years) is never approached by
  an entry's age, so the difference is taken in \<open>int\<close>.
\<close>

type_synonym Time = int
type_synonym Duration = int

definition Second :: Duration where
  "Second = 1000000000"

text \<open>
  \<^verbatim>\<open>type cacheItem[K, V] struct { key K; created time.Time; data V }\<close>
\<close>

record ('k, 'v) cacheItem =
  key :: 'k
  created :: Time
  data :: 'v

text \<open>
  \<^verbatim>\<open>type store[K, V] struct { lock; name; data map[K]cacheItem[K, V]; duration;
  cleanUpInterval int; cleanUpActive bool }\<close>.
  The map field is called \<open>data\<close> in the source as well; it is \<open>entries\<close> here because
  a record field name can be used once. The lock is not a field of the model: each
  critical section of the source is one atomic function below.
\<close>

record ('k, 'v) store =
  name :: string
  entries :: "'k \<rightharpoonup> ('k, 'v) cacheItem"
  duration :: Duration
  cleanUpInterval :: int
  cleanUpActive :: bool

text \<open>
  \<^verbatim>\<open>NewStore\<close>: an empty map, the given duration, a clean-up interval of 1 (second) and
  the clean-up flag set. It then starts \<^verbatim>\<open>cleanUpJob\<close>.
\<close>

definition NewStore :: "string \<Rightarrow> Duration \<Rightarrow> ('k, 'v) store" where
  "NewStore nm d =
     \<lparr>name = nm, entries = Map.empty, duration = d, cleanUpInterval = 1, cleanUpActive = True\<rparr>"

text \<open>
  \<^verbatim>\<open>sleepInterval := time.Duration(s.cleanUpInterval) * time.Second\<close>, computed once
  when the job starts.
\<close>

definition sleepInterval :: "('k, 'v) store \<Rightarrow> Duration" where
  "sleepInterval s = cleanUpInterval s * Second"

text \<open>
  The expiry test, written the same way at both places of the source:
  \<^verbatim>\<open>time.Since(item.created) >= s.duration\<close> in \<^verbatim>\<open>GetData\<close> and
  \<^verbatim>\<open>now.Sub(item.created) >= duration\<close> in \<^verbatim>\<open>cleanUpJob\<close>.
\<close>

definition age :: "Time \<Rightarrow> ('k, 'v) cacheItem \<Rightarrow> Duration" where
  "age now it = now - created it"

definition expired :: "Duration \<Rightarrow> Time \<Rightarrow> ('k, 'v) cacheItem \<Rightarrow> bool" where
  "expired d now it = (age now it \<ge> d)"

subsection \<open>addData\<close>

text \<open>
  A loader is a Go function \<^verbatim>\<open>func(key K) (V, error)\<close>: it returns a value and an
  error that is \<open>None\<close> for \<^verbatim>\<open>nil\<close>. One activation of \<^verbatim>\<open>GetData\<close> calls its loader at
  most once, so a loader is a function here; two calls of \<^verbatim>\<open>GetData\<close> may be given
  different loaders.

  \<^verbatim>\<open>addData\<close> calls the loader. On an error it returns the zero item (\<open>None\<close>) and the
  error, and leaves the map alone. Otherwise it stores and returns an item stamped with
  \<^verbatim>\<open>time.Now()\<close>, the reading \<open>now\<close>.
\<close>

definition addData ::
  "('k, 'v) store \<Rightarrow> 'k \<Rightarrow> ('k \<Rightarrow> 'v \<times> 'e option) \<Rightarrow> Time \<Rightarrow>
     (('k, 'v) cacheItem option \<times> 'e option) \<times> ('k, 'v) store" where
  "addData s k dataFunction now =
     (case dataFunction k of
        (d, Some e) \<Rightarrow> ((None, Some e), s)
      | (d, None) \<Rightarrow>
          (let item = \<lparr>key = k, created = now, data = d\<rparr>
           in ((Some item, None), s\<lparr>entries := (entries s)(k \<mapsto> item)\<rparr>)))"

subsection \<open>Clear\<close>

text \<open>\<^verbatim>\<open>s.data = make(map[K]cacheItem[K, V])\<close>, under the lock.\<close>

definition Clear :: "('k, 'v) store \<Rightarrow> ('k, 'v) store" where
  "Clear s = s\<lparr>entries := Map.empty\<rparr>"

subsection \<open>One pass of cleanUpJob\<close>

text \<open>
  The body of \<^verbatim>\<open>for key, item := range s.data\<close>: the keys are visited in some order
  \<open>ks\<close> (Go leaves the order open), and a key whose item has
  \<^verbatim>\<open>now.Sub(item.created) >= duration\<close> is deleted. A key that is no longer in the map
  is not produced by the range.
\<close>

fun sweepKeys ::
  "Duration \<Rightarrow> Time \<Rightarrow> 'k list \<Rightarrow> ('k \<rightharpoonup> ('k, 'v) cacheItem) \<Rightarrow> ('k \<rightharpoonup> ('k, 'v) cacheItem)" where
  "sweepKeys d now [] m = m"
| "sweepKeys d now (k # ks) m =
     sweepKeys d now ks
       (case m k of
          None \<Rightarrow> m
        | Some it \<Rightarrow> if expired d now it then m(k := None) else m)"

text \<open>
  One iteration of the job's loop after its sleep, at clock reading \<open>now\<close>: nothing
  happens when the flag is off (the job returns) or the map is empty (\<^verbatim>\<open>continue\<close>);
  otherwise every key is visited, under the lock. The job compares with the duration
  it read when it started; no statement of the package changes the duration of a
  store, so this is the store's duration.
\<close>

definition cleanUpPass :: "('k, 'v) store \<Rightarrow> Time \<Rightarrow> 'k list \<Rightarrow> ('k, 'v) store" where
  "cleanUpPass s now ks =
     (if \<not> cleanUpActive s then s
      else if entries s = Map.empty then s
      else s\<lparr>entries := sweepKeys (duration s) now ks (entries s)\<rparr>)"

text \<open>The order \<open>ks\<close> of a range over the map: every key of the map, once.\<close>

definition rangeOrder :: "'k list \<Rightarrow> ('k \<rightharpoonup> 'a) \<Rightarrow> bool" where
  "rangeOrder ks m = (distinct ks \<and> set ks = dom m)"

subsection \<open>GetData\<close>

text \<open>
  \<^verbatim>\<open>GetData\<close> takes the lock three times, and between two of them another goroutine
  may run. Each critical section is a function of its own here; the locals \<^verbatim>\<open>item\<close>
  and \<^verbatim>\<open>ok\<close> are passed from one to the next. \<^verbatim>\<open>item\<close> is \<open>None\<close> while it holds the
  zero \<^verbatim>\<open>cacheItem\<close> (a failed map lookup, a failed \<^verbatim>\<open>addData\<close>). The second
  component of a section's result counts the loader calls the section made.

  First section, under the read lock: \<^verbatim>\<open>item, ok := s.data[key]\<close>.
\<close>

definition secLookup :: "('k, 'v) store \<Rightarrow> 'k \<Rightarrow> ('k, 'v) cacheItem option \<times> bool" where
  "secLookup s k = (entries s k, entries s k \<noteq> None)"

text \<open>
  Second section, entered when \<^verbatim>\<open>!ok\<close>, under the write lock: the lookup is repeated,
  and when the key is still missing \<^verbatim>\<open>addData\<close> loads it. \<^verbatim>\<open>ok\<close> keeps the value of
  the lookup, so it is false after a load. An error of the loader is returned with
  the zero value (\<open>Inl\<close>); otherwise the call goes on with its locals (\<open>Inr\<close>).
\<close>

definition secRecheck ::
  "'v \<Rightarrow> ('k, 'v) store \<Rightarrow> 'k \<Rightarrow> ('k \<Rightarrow> 'v \<times> 'e option) \<Rightarrow> Time \<Rightarrow>
     ('k, 'v) store \<times> nat \<times> (('v \<times> 'e option) + (('k, 'v) cacheItem option \<times> bool))" where
  "secRecheck zeroValue s k dataFunction now =
     (case entries s k of
        Some it \<Rightarrow> (s, 0, Inr (Some it, True))
      | None \<Rightarrow>
          (case addData s k dataFunction now of
             ((it, Some e), s') \<Rightarrow> (s', 1, Inl (zeroValue, Some e))
           | ((it, None), s') \<Rightarrow> (s', 1, Inr (it, False))))"

text \<open>\<^verbatim>\<open>item.data\<close>; the zero item holds the zero value.\<close>

definition itemData :: "'v \<Rightarrow> ('k, 'v) cacheItem option \<Rightarrow> 'v" where
  "itemData zeroValue it = (case it of Some i \<Rightarrow> data i | None \<Rightarrow> zeroValue)"

text \<open>
  Third section, under the write lock:
  \<^verbatim>\<open>if ok && time.Since(item.created) >= s.duration { item, err = s.addData(...) }\<close>,
  then \<^verbatim>\<open>return item.data, nil\<close>. The test reads the local \<^verbatim>\<open>item\<close>, not the map.
  \<open>tSince\<close> is the clock reading of \<^verbatim>\<open>time.Since\<close> and \<open>tNow\<close> the one of
  \<^verbatim>\<open>time.Now()\<close> in \<^verbatim>\<open>addData\<close>. (With \<^verbatim>\<open>ok\<close> set the item is never the zero item;
  the age of the zero \<^verbatim>\<open>time.Time\<close> would exceed every duration.)
\<close>

definition secAgeCheck ::
  "'v \<Rightarrow> ('k, 'v) store \<Rightarrow> 'k \<Rightarrow> ('k \<Rightarrow> 'v \<times> 'e option) \<Rightarrow> Time \<Rightarrow> Time \<Rightarrow>
     ('k, 'v) cacheItem option \<Rightarrow> bool \<Rightarrow> ('k, 'v) store \<times> nat \<times> ('v \<times> 'e option)" where
  "secAgeCheck zeroValue s k dataFunction tSince tNow item ok =
     (if ok \<and> (case item of Some i \<Rightarrow> expired (duration s) tSince i | None \<Rightarrow> True)
      then (case addData s k dataFunction tNow of
              ((it, Some e), s') \<Rightarrow> (s', 1, (zeroValue, Some e))
            | ((it, None), s') \<Rightarrow> (s', 1, (itemData zeroValue it, None)))
      else (s, 0, (itemData zeroValue item, None)))"

text \<open>
  A call of \<^verbatim>\<open>GetData\<close> that no other goroutine interleaves with: the three sections
  in a row. The result is the returned pair (value, error), the store afterwards, and
  the number of times the loader was called.
\<close>

definition GetData ::
  "'v \<Rightarrow> ('k, 'v) store \<Rightarrow> 'k \<Rightarrow> ('k \<Rightarrow> 'v \<times> 'e option) \<Rightarrow> Time \<Rightarrow> Time \<Rightarrow>
     ('v \<times> 'e option) \<times> ('k, 'v) store \<times> nat" where
  "GetData zeroValue s k dataFunction tSince tNow =
     (case secLookup s k of
        (item, ok) \<Rightarrow>
          (case (if \<not> ok then secRecheck zeroValue s k dataFunction tNow
                 else (s, 0, Inr (item, ok))) of
             (s1, n1, Inl r) \<Rightarrow> (r, s1, n1)
           | (s1, n1, Inr (item1, ok1)) \<Rightarrow>
               (case secAgeCheck zeroValue s1 k dataFunction tSince tNow item1 ok1 of
                  (s2, n2, r) \<Rightarrow> (r, s2, n1 + n2))))"

subsection \<open>Reading the result of a call\<close>

text \<open>
  A call yields the returned pair, the store afterwards and the number of loader calls.
\<close>

definition returned :: "'r \<times> 's \<times> nat \<Rightarrow> 'r" where
  "returned c = fst c"

definition storeAfter :: "'r \<times> 's \<times> nat \<Rightarrow> 's" where
  "storeAfter c = fst (snd c)"

definition loaderCalls :: "'r \<times> 's \<times> nat \<Rightarrow> nat" where
  "loaderCalls c = snd (snd c)"

text \<open>Loaders for the examples: one that always fails, one that always succeeds.\<close>

definition boom :: "string \<Rightarrow> string \<times> string option" where
  "boom k = ([], Some ''boom'')"

definition loadV2 :: "string \<Rightarrow> string \<times> string option" where
  "loadV2 k = (''v2'', None)"

text \<open>A store with an item exactly one second old at the reading \<open>Second\<close>, and a younger one.\<close>

definition sweepExample :: "(string, string) store" where
  "sweepExample =
     \<lparr>name = ''testStore'',
      entries = [''old'' \<mapsto> \<lparr>key = ''old'', created = 0, data = ''v1''\<rparr>,
                 ''new'' \<mapsto> \<lparr>key = ''new'', created = 1, data = ''v2''\<rparr>],
      duration = Second, cleanUpInterval = 1, cleanUpActive = True\<rparr>"

section \<open>Goroutines inside GetData\<close>

text \<open>
  Where one activation of \<^verbatim>\<open>GetData\<close> stands, with the locals that are live there:
  before the first lookup, before the second section (\<^verbatim>\<open>!ok\<close>), before the third
  section (with \<^verbatim>\<open>item\<close> and \<^verbatim>\<open>ok\<close>), or returned with its pair.
\<close>

datatype ('k, 'v, 'e) activation =
    AtLookup
  | AtRecheck
  | AtAgeCheck "('k, 'v) cacheItem option" bool
  | Returned "'v \<times> 'e option"

text \<open>
  One goroutine runs its next critical section; the lock makes the section atomic. The
  number beside the store counts the loader calls of all goroutines.
\<close>

definition stepActivation ::
  "'v \<Rightarrow> 'k \<Rightarrow> ('k \<Rightarrow> 'v \<times> 'e option) \<Rightarrow> Time \<Rightarrow> Time \<Rightarrow>
     ('k, 'v) store \<times> nat \<Rightarrow> ('k, 'v, 'e) activation \<Rightarrow>
     (('k, 'v) store \<times> nat) \<times> ('k, 'v, 'e) activation" where
  "stepActivation zeroValue k dataFunction tSince tNow sn a =
     (case sn of (s, n) \<Rightarrow>
        (case a of
           AtLookup \<Rightarrow>
             (case secLookup s k of
                (item, ok) \<Rightarrow> ((s, n), if \<not> ok then AtRecheck else AtAgeCheck item ok))
         | AtRecheck \<Rightarrow>
             (case secRecheck zeroValue s k dataFunction tNow of
                (s', m, Inl r) \<Rightarrow> ((s', n + m), Returned r)
              | (s', m, Inr (item, ok)) \<Rightarrow> ((s', n + m), AtAgeCheck item ok))
         | AtAgeCheck item ok \<Rightarrow>
             (case secAgeCheck zeroValue s k dataFunction tSince tNow item ok of
                (s', m, r) \<Rightarrow> ((s', n + m), Returned r))
         | Returned r \<Rightarrow> ((s, n), Returned r)))"

text \<open>
  A schedule names, step by step, the goroutine that takes the lock next and the clock
  readings of its section.
\<close>

fun runSchedule ::
  "'v \<Rightarrow> 'k \<Rightarrow> ('k \<Rightarrow> 'v \<times> 'e option) \<Rightarrow> (nat \<times> Time \<times> Time) list \<Rightarrow>
     (('k, 'v) store \<times> nat) \<times> ('k, 'v, 'e) activation list \<Rightarrow>
     (('k, 'v) store \<times> nat) \<times> ('k, 'v, 'e) activation list" where
  "runSchedule zeroValue k dataFunction [] c = c"
| "runSchedule zeroValue k dataFunction ((i, tSince, tNow) # sched) (sn, acts) =
     (if i < length acts
      then (case stepActivation zeroValue k dataFunction tSince tNow sn (acts ! i) of
              (sn', a') \<Rightarrow> runSchedule zeroValue k dataFunction sched (sn', acts[i := a']))
      else runSchedule zeroValue k dataFunction sched (sn, acts))"

section \<open>The store with its clean-up goroutine\<close>

text \<open>
  The goroutine started by \<^verbatim>\<open>cleanUpJob\<close>: at the head of
  \<^verbatim>\<open>for s.cleanUpActive\<close>, asleep, or gone. It leaves at the head of the loop or
  after the sleep when it reads the flag as false; otherwise it makes its pass.
\<close>

datatype job = LoopHead | Sleeping | Exited

definition jobStep ::
  "job \<Rightarrow> ('k, 'v) store \<Rightarrow> Time \<Rightarrow> 'k list \<Rightarrow> job \<times> ('k, 'v) store" where
  "jobStep j s now ks =
     (case j of
        LoopHead \<Rightarrow> if cleanUpActive s then (Sleeping, s) else (Exited, s)
      | Sleeping \<Rightarrow> if \<not> cleanUpActive s then (Exited, s) else (LoopHead, cleanUpPass s now ks)
      | Exited \<Rightarrow> (Exited, s))"

text \<open>
  What can happen to a store: a call of one of its two methods, \<^verbatim>\<open>GetData\<close> and
  \<^verbatim>\<open>Clear\<close>, or a step of its clean-up goroutine. The type has no other method, and
  its fields are not exported.
\<close>

datatype ('k, 'v, 'e) event =
    CallGetData 'k "'k \<Rightarrow> 'v \<times> 'e option" Time Time
  | CallClear
  | JobStep Time "'k list"

text \<open>\<^verbatim>\<open>NewStore\<close> returns the store with its clean-up goroutine started.\<close>

definition startStore :: "string \<Rightarrow> Duration \<Rightarrow> ('k, 'v) store \<times> job" where
  "startStore nm d = (NewStore nm d, LoopHead)"

text \<open>
  The effect of one event, and of a sequence of events. A call of \<^verbatim>\<open>GetData\<close> is
  taken as a whole here.
\<close>

definition applyEvent ::
  "'v \<Rightarrow> ('k, 'v, 'e) event \<Rightarrow> ('k, 'v) store \<times> job \<Rightarrow> ('k, 'v) store \<times> job" where
  "applyEvent zeroValue ev c =
     (case c of (s, j) \<Rightarrow>
        (case ev of
           CallGetData k dataFunction tSince tNow \<Rightarrow>
             (storeAfter (GetData zeroValue s k dataFunction tSince tNow), j)
         | CallClear \<Rightarrow> (Clear s, j)
         | JobStep now ks \<Rightarrow> (case jobStep j s now ks of (j', s') \<Rightarrow> (s', j'))))"

fun runEvents ::
  "'v \<Rightarrow> ('k, 'v, 'e) event list \<Rightarrow> ('k, 'v) store \<times> job \<Rightarrow> ('k, 'v) store \<times> job" where
  "runEvents zeroValue [] c = c"
| "runEvents zeroValue (ev # evs) c = runEvents zeroValue evs (applyEvent zeroValue ev c)"

text \<open>
  The clock is monotonic: in a sequence of events each reading is at least the one
  before, and inside a call \<^verbatim>\<open>time.Since\<close> reads the clock before \<^verbatim>\<open>time.Now()\<close>
  does. \<open>lastReading\<close> is the last reading of a sequence that starts at \<open>t\<close>.
\<close>

fun clockOrdered :: "Time \<Rightarrow> ('k, 'v, 'e) event list \<Rightarrow> bool" where
  "clockOrdered t [] = True"
| "clockOrdered t (CallGetData k f tSince tNow # evs) =
     (t \<le> tSince \<and> tSince \<le> tNow \<and> clockOrdered tNow evs)"
| "clockOrdered t (CallClear # evs) = clockOrdered t evs"
| "clockOrdered t (JobStep now ks # evs) = (t \<le> now \<and> clockOrdered now evs)"

fun lastReading :: "Time \<Rightarrow> ('k, 'v, 'e) event list \<Rightarrow> Time" where
  "lastReading t [] = t"
| "lastReading t (CallGetData k f tSince tNow # evs) = lastReading tNow evs"
| "lastReading t (CallClear # evs) = lastReading t evs"
| "lastReading t (JobStep now ks # evs) = lastReading now evs"

text \<open>Every item of the store was stamped at \<open>t\<close> or before.\<close>

definition stampedBy :: "Time \<Rightarrow> ('k, 'v) store \<Rightarrow> bool" where
  "stampedBy t s = (\<forall>k it. entries s k = Some it \<longrightarrow> created it \<le> t)"

section \<open>The users cache (package db)\<close>

text \<open>\<^verbatim>\<open>data.User\<close>.\<close>

record User =
  ID :: string
  FirstName :: string
  LastName :: string
  Nickname :: string
  Password :: string
  Email :: string
  Country :: string
  CreatedAt :: Time
  UpdatedAt :: Time

text \<open>
  \<^verbatim>\<open>MongoCollectionInt\<close>, the interface the package reaches MongoDB through (the real
  driver, or the struct of functions in package mocks). MongoDB itself is outside the
  repository: \<open>'c\<close> is whatever the collection holds, and each method is given with the
  arguments the package passes to it. \<^verbatim>\<open>InsertOne\<close> takes the document;
  \<^verbatim>\<open>Find\<close> is called with the empty filter and stands for the cursor read to its end
  (the decoded users, or the first error); \<^verbatim>\<open>FindOneAndUpdate\<close> takes the id of the
  filter and the user whose fields the \<^verbatim>\<open>$set\<close> document carries, and yields the decoded
  document or the error of \<^verbatim>\<open>Decode\<close>; \<^verbatim>\<open>DeleteOne\<close> takes the id and yields
  \<^verbatim>\<open>DeletedCount\<close>; \<^verbatim>\<open>DeleteMany\<close> is called with the empty filter. \<^verbatim>\<open>FindOne\<close> is
  used by \<^verbatim>\<open>GetUser\<close> and \<^verbatim>\<open>GetUserByID\<close> only, which are not modelled.
\<close>

record 'c MongoCollectionInt =
  InsertOne :: "User \<Rightarrow> 'c \<Rightarrow> string option \<times> 'c"
  Find :: "'c \<Rightarrow> User list \<times> string option"
  FindOneAndUpdate :: "string \<Rightarrow> User \<Rightarrow> 'c \<Rightarrow> (User \<times> string option) \<times> 'c"
  DeleteOne :: "string \<Rightarrow> 'c \<Rightarrow> (nat \<times> string option) \<times> 'c"
  DeleteMany :: "'c \<Rightarrow> string option \<times> 'c"

text \<open>
  The package's two variables: \<^verbatim>\<open>userCollection\<close> and \<^verbatim>\<open>userStore\<close>, the latter
  made by \<^verbatim>\<open>cacheStore.NewStore[int, []data.User]("userStore", time.Second*20)\<close>.
\<close>

record 'c db =
  userCollection :: 'c
  userStore :: "(int, User list) store"

definition initDb :: "'c \<Rightarrow> 'c db" where
  "initDb c = \<lparr>userCollection = c, userStore = NewStore ''userStore'' (Second * 20)\<rparr>"

text \<open>
  The loader that \<^verbatim>\<open>GetUsers\<close> passes to \<^verbatim>\<open>GetData\<close>: all users, or \<^verbatim>\<open>nil\<close> and the
  error. \<^verbatim>\<open>GetUsers\<close> keys the cache on 0 and wraps an error.
\<close>

definition findAllUsers :: "'c MongoCollectionInt \<Rightarrow> 'c \<Rightarrow> int \<Rightarrow> User list \<times> string option" where
  "findAllUsers mc c k =
     (case Find mc c of
        (users, Some e) \<Rightarrow> ([], Some e)
      | (users, None) \<Rightarrow> (users, None))"

definition GetUsers ::
  "'c MongoCollectionInt \<Rightarrow> 'c db \<Rightarrow> Time \<Rightarrow> Time \<Rightarrow> (User list \<times> string option) \<times> 'c db \<times> nat" where
  "GetUsers mc d tSince tNow =
     (case GetData [] (userStore d) 0 (findAllUsers mc (userCollection d)) tSince tNow of
        ((users, Some e), s', n) \<Rightarrow>
          (([], Some (''failed when getting users: '' @ e)), d\<lparr>userStore := s'\<rparr>, n)
      | ((users, None), s', n) \<Rightarrow> ((users, None), d\<lparr>userStore := s'\<rparr>, n))"

text \<open>The four writes. Each returns its error and the package state afterwards.\<close>

definition InsertUser :: "'c MongoCollectionInt \<Rightarrow> User \<Rightarrow> 'c db \<Rightarrow> string option \<times> 'c db" where
  "InsertUser mc user d =
     (case InsertOne mc user (userCollection d) of
        (Some e, c') \<Rightarrow> (Some (''err when inserting user - err: '' @ e), d\<lparr>userCollection := c'\<rparr>)
      | (None, c') \<Rightarrow> (None, d\<lparr>userCollection := c'\<rparr>))"

definition UpdateUser ::
  "'c MongoCollectionInt \<Rightarrow> User \<Rightarrow> Time \<Rightarrow> 'c db \<Rightarrow> (User option \<times> string option) \<times> 'c db" where
  "UpdateUser mc user now d =
     (case FindOneAndUpdate mc (ID user) (user\<lparr>UpdatedAt := now\<rparr>) (userCollection d) of
        ((updatedUser, Some e), c') \<Rightarrow>
          ((None, Some (''error when updating user - err: '' @ e)), d\<lparr>userCollection := c'\<rparr>)
      | ((updatedUser, None), c') \<Rightarrow> ((Some updatedUser, None), d\<lparr>userCollection := c'\<rparr>))"

definition DeleteUser :: "'c MongoCollectionInt \<Rightarrow> string \<Rightarrow> 'c db \<Rightarrow> string option \<times> 'c db" where
  "DeleteUser mc userID d =
     (case DeleteOne mc userID (userCollection d) of
        ((deletedCount, Some e), c') \<Rightarrow>
          (Some (''error when deleting user - err: '' @ e), d\<lparr>userCollection := c'\<rparr>)
      | ((deletedCount, None), c') \<Rightarrow>
          (if deletedCount = 0 then (Some ''no user found with the given ID'', d\<lparr>userCollection := c'\<rparr>)
           else (None, d\<lparr>userCollection := c'\<rparr>)))"

definition DeleteAllUsers :: "'c MongoCollectionInt \<Rightarrow> 'c db \<Rightarrow> string option \<times> 'c db" where
  "DeleteAllUsers mc d =
     (case DeleteMany mc (userCollection d) of
        (Some e, c') \<Rightarrow> (Some (''error deleting all users: '' @ e), d\<lparr>userCollection := c'\<rparr>)
      | (None, c') \<Rightarrow> (None, d\<lparr>userCollection := c'\<rparr>))"

text \<open>
  A collection for the examples, kept as the list of its documents, and a package
  state whose cache holds the list read at time 0.
\<close>

definition listCollection :: "(User list) MongoCollectionInt" where
  "listCollection =
     \<lparr>InsertOne = (\<lambda>u c. (None, c @ [u])),
      Find = (\<lambda>c. (c, None)),
      FindOneAndUpdate = (\<lambda>i u c.
        if i \<in> ID ` set c then ((u, None), map (\<lambda>x. if ID x = i then u else x) c)
        else ((u, Some ''mongo: no documents in result''), c)),
      DeleteOne = (\<lambda>i c.
        if i \<in> ID ` set c then ((1, None), filter (\<lambda>x. ID x \<noteq> i) c) else ((0, None), c)),
      DeleteMany = (\<lambda>c. (None, []))\<rparr>"

definition alice :: User where
  "alice = \<lparr>ID = ''8711e364'', FirstName = ''Alice'', LastName = ''Bob'', Nickname = ''AB123'',
     Password = ''supersecurepassword'', Email = ''alice@bob.com'', Country = ''UK'',
     CreatedAt = 0, UpdatedAt = 0\<rparr>"

definition cachedDb :: "(User list) db" where
  "cachedDb =
     \<lparr>userCollection = [alice],
      userStore = (NewStore ''userStore'' (Second * 20))
        \<lparr>entries := [0 \<mapsto> \<lparr>key = 0, created = 0, data = [alice]\<rparr>]\<rparr>\<rparr>"

section \<open>The update broadcaster (UserService)\<close>

text \<open>\<^verbatim>\<open>pb.UserUpdate{UserId, UpdateType, User}\<close>; the user is a pointer that may be nil.\<close>

record UserUpdate =
  UserId :: string
  UpdateType :: string
  UpdatedUser :: "User option"

subsection \<open>Go channels\<close>

text \<open>
  A channel value as the Go runtime keeps it: its capacity (0 for \<^verbatim>\<open>make(chan T)\<close>),
  the buffered values, whether a goroutine is blocked in a receive on it, and whether
  it is closed. \<open>received\<close> records, in order, the values that receives have taken out
  of the channel.
\<close>

record 'a chan =
  capacity :: nat
  buffer :: "'a list"
  receiverWaiting :: bool
  received :: "'a list"
  closed :: bool

definition makeChan :: "nat \<Rightarrow> 'a chan" where
  "makeChan n = \<lparr>capacity = n, buffer = [], receiverWaiting = False, received = [], closed = False\<rparr>"

text \<open>
  \<^verbatim>\<open>select { case ch <- v: default: }\<close>. A send on a closed channel panics. Otherwise
  the send goes through when a receiver is blocked on the channel (the value is handed
  to it, and it is no longer blocked) or the buffer has room; with neither the
  \<^verbatim>\<open>default\<close> branch runs.
\<close>

datatype sendOutcome = Sent | Dropped | SendOnClosed

definition accepts :: "'a chan \<Rightarrow> bool" where
  "accepts c = (receiverWaiting c \<or> length (buffer c) < capacity c)"

definition deliver :: "'a \<Rightarrow> 'a chan \<Rightarrow> 'a chan" where
  "deliver v c =
     (if receiverWaiting c then c\<lparr>received := received c @ [v], receiverWaiting := False\<rparr>
      else c\<lparr>buffer := buffer c @ [v]\<rparr>)"

definition trySend :: "'a \<Rightarrow> 'a chan \<Rightarrow> sendOutcome \<times> 'a chan" where
  "trySend v c =
     (if closed c then (SendOnClosed, c)
      else if accepts c then (Sent, deliver v c)
      else (Dropped, c))"

text \<open>
  A receive: the oldest buffered value, or, on an empty buffer, the goroutine blocks.
\<close>

definition receive :: "'a chan \<Rightarrow> 'a chan" where
  "receive c =
     (case buffer c of
        [] \<Rightarrow> c\<lparr>receiverWaiting := True\<rparr>
      | v # vs \<Rightarrow> c\<lparr>buffer := vs, received := received c @ [v]\<rparr>)"

subsection \<open>The service and NotifyUpdate\<close>

text \<open>
  A channel is a reference; \<open>chanId\<close> is its address and \<open>chans\<close> the heap of channel
  values. \<^verbatim>\<open>watchers\<close> is the \<^verbatim>\<open>map[chan *pb.UserUpdate]struct{}\<close> of the source, a set
  of channels. \<open>dropLog\<close> holds the lines written by \<^verbatim>\<open>log.Printf\<close>. (The field
  \<^verbatim>\<open>userUpdates\<close> is never used by the source.)
\<close>

type_synonym chanId = nat

record UserService =
  watchers :: "chanId set"
  chans :: "chanId \<rightharpoonup> UserUpdate chan"
  dropLog :: "string list"

definition NewUserService :: UserService where
  "NewUserService = \<lparr>watchers = {}, chans = Map.empty, dropLog = []\<rparr>"

text \<open>
  The body of the loop of \<^verbatim>\<open>NotifyUpdate\<close> for one channel: the non-blocking send,
  and the log line when the update is dropped. A channel with no value on the heap is
  the nil channel, on which a send never goes through.
\<close>

datatype panic = SendOnClosedChannel

definition notifyOne :: "UserUpdate \<Rightarrow> chanId \<Rightarrow> UserService \<Rightarrow> panic + UserService" where
  "notifyOne upd ch s =
     (case chans s ch of
        None \<Rightarrow>
          Inr (s\<lparr>dropLog := dropLog s @
                 [''Dropping update for user '' @ UserId upd @ '': channel is full'']\<rparr>)
      | Some c \<Rightarrow>
          (case trySend upd c of
             (SendOnClosed, c') \<Rightarrow> Inl SendOnClosedChannel
           | (Sent, c') \<Rightarrow> Inr (s\<lparr>chans := (chans s)(ch \<mapsto> c')\<rparr>)
           | (Dropped, c') \<Rightarrow>
               Inr (s\<lparr>dropLog := dropLog s @
                      [''Dropping update for user '' @ UserId upd @ '': channel is full'']\<rparr>)))"

text \<open>
  \<^verbatim>\<open>for ch := range s.watchers\<close>, in the order \<open>ks\<close> of the range, under the read lock.
  \<^verbatim>\<open>NotifyUpdate\<close> has no result; the model returns the service afterwards, or the
  panic.
\<close>

fun notifyLoop :: "UserUpdate \<Rightarrow> chanId list \<Rightarrow> UserService \<Rightarrow> panic + UserService" where
  "notifyLoop upd [] s = Inr s"
| "notifyLoop upd (ch # chs) s =
     (case notifyOne upd ch s of
        Inl p \<Rightarrow> Inl p
      | Inr s' \<Rightarrow> notifyLoop upd chs s')"

definition NotifyUpdate ::
  "string \<Rightarrow> string \<Rightarrow> User option \<Rightarrow> chanId list \<Rightarrow> UserService \<Rightarrow> panic + UserService" where
  "NotifyUpdate userID updateType user ks s =
     notifyLoop \<lparr>UserId = userID, UpdateType = updateType, UpdatedUser = user\<rparr> ks s"

subsection \<open>Watchers and notifiers, interleaved\<close>

text \<open>
  Where the goroutine of one \<^verbatim>\<open>WatchUsers\<close> call stands: it has made its channel, it
  has registered it (and is in its \<^verbatim>\<open>range updateChan\<close> loop), its deferred function
  has deleted the channel from \<^verbatim>\<open>watchers\<close>, or it has also closed the channel.
\<close>

datatype phase = Made | Registered | Removed | Finished

record world =
  service :: UserService
  phase :: "chanId \<rightharpoonup> phase"
  notifying :: "nat \<rightharpoonup> UserUpdate \<times> chanId list"
  panicked :: bool

text \<open>\<^verbatim>\<open>NewUserService\<close>, with no goroutine running.\<close>

definition initWorld :: world where
  "initWorld = \<lparr>service = NewUserService, phase = Map.empty, notifying = Map.empty, panicked = False\<rparr>"

text \<open>
  The atomic steps. Of \<^verbatim>\<open>WatchUsers\<close>, for the channel it owns: \<^verbatim>\<open>make\<close>; the locked
  insertion into \<^verbatim>\<open>watchers\<close>; a receive of the \<^verbatim>\<open>range\<close> loop; the locked
  \<^verbatim>\<open>delete\<close> of the deferred function, run when \<^verbatim>\<open>stream.Send\<close> has failed; and
  \<^verbatim>\<open>close\<close>. Of a \<^verbatim>\<open>NotifyUpdate\<close> call \<open>n\<close>: taking the read lock and starting the
  range; one iteration of the loop; releasing the lock at the end.
\<close>

datatype action =
    WatchMake chanId
  | WatchRegister chanId
  | WatchReceive chanId
  | WatchRemove chanId
  | WatchClose chanId
  | NotifyBegin nat string string "User option" "chanId list"
  | NotifySend nat
  | NotifyEnd nat

text \<open>
  The watcher of \<open>ch\<close> is in its loop and not blocked in a receive.
\<close>

definition running :: "world \<Rightarrow> chanId \<Rightarrow> bool" where
  "running w ch =
     (phase w ch = Some Registered \<and>
      (case chans (service w) ch of None \<Rightarrow> False | Some c \<Rightarrow> \<not> receiverWaiting c))"

text \<open>
  When a step can be taken. Nothing runs after a panic. The write lock of
  \<^verbatim>\<open>sync.RWMutex\<close> is free only while no \<^verbatim>\<open>NotifyUpdate\<close> holds the read lock.
\<close>

fun enabled :: "action \<Rightarrow> world \<Rightarrow> bool" where
  "enabled (WatchMake ch) w = (\<not> panicked w \<and> chans (service w) ch = None \<and> phase w ch = None)"
| "enabled (WatchRegister ch) w =
     (\<not> panicked w \<and> phase w ch = Some Made \<and> notifying w = Map.empty)"
| "enabled (WatchReceive ch) w = (\<not> panicked w \<and> running w ch)"
| "enabled (WatchRemove ch) w = (\<not> panicked w \<and> running w ch \<and> notifying w = Map.empty)"
| "enabled (WatchClose ch) w = (\<not> panicked w \<and> phase w ch = Some Removed)"
| "enabled (NotifyBegin n userID updateType user ks) w =
     (\<not> panicked w \<and> notifying w n = None \<and> distinct ks \<and> set ks = watchers (service w))"
| "enabled (NotifySend n) w =
     (\<not> panicked w \<and>
      (case notifying w n of Some (upd, ch # rest) \<Rightarrow> True | _ \<Rightarrow> False))"
| "enabled (NotifyEnd n) w =
     (\<not> panicked w \<and> (case notifying w n of Some (upd, []) \<Rightarrow> True | _ \<Rightarrow> False))"

text \<open>The effect of a step.\<close>

definition onChan :: "chanId \<Rightarrow> (UserUpdate chan \<Rightarrow> UserUpdate chan) \<Rightarrow> UserService \<Rightarrow> UserService" where
  "onChan ch f s =
     (case chans s ch of None \<Rightarrow> s | Some c \<Rightarrow> s\<lparr>chans := (chans s)(ch \<mapsto> f c)\<rparr>)"

fun perform :: "action \<Rightarrow> world \<Rightarrow> world" where
  "perform (WatchMake ch) w =
     w\<lparr>service := (service w)\<lparr>chans := (chans (service w))(ch \<mapsto> makeChan 0)\<rparr>,
       phase := (phase w)(ch \<mapsto> Made)\<rparr>"
| "perform (WatchRegister ch) w =
     w\<lparr>service := (service w)\<lparr>watchers := insert ch (watchers (service w))\<rparr>,
       phase := (phase w)(ch \<mapsto> Registered)\<rparr>"
| "perform (WatchReceive ch) w = w\<lparr>service := onChan ch receive (service w)\<rparr>"
| "perform (WatchRemove ch) w =
     w\<lparr>service := (service w)\<lparr>watchers := watchers (service w) - {ch}\<rparr>,
       phase := (phase w)(ch \<mapsto> Removed)\<rparr>"
| "perform (WatchClose ch) w =
     w\<lparr>service := onChan ch (\<lambda>c. c\<lparr>closed := True\<rparr>) (service w),
       phase := (phase w)(ch \<mapsto> Finished)\<rparr>"
| "perform (NotifyBegin n userID updateType user ks) w =
     w\<lparr>notifying := (notifying w)
         (n \<mapsto> (\<lparr>UserId = userID, UpdateType = updateType, UpdatedUser = user\<rparr>, ks))\<rparr>"
| "perform (NotifySend n) w =
     (case notifying w n of
        Some (upd, ch # rest) \<Rightarrow>
          (case notifyOne upd ch (service w) of
             Inl p \<Rightarrow> w\<lparr>panicked := True\<rparr>
           | Inr s' \<Rightarrow> w\<lparr>service := s', notifying := (notifying w)(n \<mapsto> (upd, rest))\<rparr>)
      | _ \<Rightarrow> w)"
| "perform (NotifyEnd n) w = w\<lparr>notifying := (notifying w)(n := None)\<rparr>"

text \<open>A run: steps taken one after the other; \<open>None\<close> when one of them cannot be taken.\<close>

fun run :: "action list \<Rightarrow> world \<Rightarrow> world option" where
  "run [] w = Some w"
| "run (a # as) w = (if enabled a w then run as (perform a w) else None)"

text \<open>
  What holds in every state of a run: no panic; a channel in \<^verbatim>\<open>watchers\<close> belongs to
  a watcher in its loop; a watcher's channel is on the heap; a channel is closed
  exactly when its watcher has finished, has capacity 0 and an empty buffer; and a
  \<^verbatim>\<open>NotifyUpdate\<close> under way has only channels of \<^verbatim>\<open>watchers\<close> left to visit.
\<close>

definition serviceInv :: "world \<Rightarrow> bool" where
  "serviceInv w =
     (\<not> panicked w \<and>
      (\<forall>ch. ch \<in> watchers (service w) \<longrightarrow> phase w ch = Some Registered) \<and>
      (\<forall>ch. phase w ch \<noteq> None \<longrightarrow> chans (service w) ch \<noteq> None) \<and>
      (\<forall>ch c. chans (service w) ch = Some c \<longrightarrow>
         (closed c \<longleftrightarrow> phase w ch = Some Finished) \<and> capacity c = 0 \<and> buffer c = []) \<and>
      (\<forall>n upd todo. notifying w n = Some (upd, todo) \<longrightarrow> set todo \<subseteq> watchers (service w)))"

text \<open>
  The watcher of \<open>ch\<close> has deleted its channel from \<^verbatim>\<open>watchers\<close>; and the updates
  the watcher of \<open>ch\<close> has received so far.
\<close>

definition gone :: "world \<Rightarrow> chanId \<Rightarrow> bool" where
  "gone w ch = (phase w ch = Some Removed \<or> phase w ch = Some Finished)"

definition receivedBy :: "world \<Rightarrow> chanId \<Rightarrow> UserUpdate list" where
  "receivedBy w ch = (case chans (service w) ch of None \<Rightarrow> [] | Some c \<Rightarrow> received c)"

text \<open>Examples: two registered watchers, the first blocked in its receive.\<close>

definition created1 :: UserUpdate where
  "created1 = \<lparr>UserId = ''u1'', UpdateType = ''CREATED'', UpdatedUser = None\<rparr>"

definition twoWatchers :: UserService where
  "twoWatchers =
     \<lparr>watchers = {1, 2},
      chans = [1 \<mapsto> (makeChan 0)\<lparr>receiverWaiting := True\<rparr>, 2 \<mapsto> makeChan 0],
      dropLog = []\<rparr>"

text \<open>
  A run: two watchers register, the first waits for an update, an update is published
  (the second watcher is not waiting, its copy is dropped), and the first watcher's
  stream fails, so it removes and closes its channel. Then the second watcher waits and
  another update is published.
\<close>

definition exampleActions :: "action list" where
  "exampleActions =
     [WatchMake 1, WatchRegister 1, WatchMake 2, WatchRegister 2, WatchReceive 1,
      NotifyBegin 0 ''u1'' ''CREATED'' None [1, 2], NotifySend 0, NotifySend 0, NotifyEnd 0,
      WatchRemove 1, WatchClose 1]"

definition dropLine :: string where
  "dropLine = ''Dropping update for user u1: channel is full''"

definition exampleWorld :: world where
  "exampleWorld =
     \<lparr>service =
        \<lparr>watchers = {2},
         chans = [1 \<mapsto> (makeChan 0)\<lparr>received := [created1], closed := True\<rparr>,
                  2 \<mapsto> makeChan 0],
         dropLog = [dropLine]\<rparr>,
      phase = [1 \<mapsto> Finished, 2 \<mapsto> Registered],
      notifying = Map.empty,
      panicked = False\<rparr>"

definition laterActions :: "action list" where
  "laterActions =
     [WatchReceive 2, NotifyBegin 0 ''u1'' ''DELETED'' None [2], NotifySend 0, NotifyEnd 0]"

definition laterWorld :: world where
  "laterWorld =
     \<lparr>service =
        \<lparr>watchers = {2},
         chans = [1 \<mapsto> (makeChan 0)\<lparr>received := [created1], closed := True\<rparr>,
                  2 \<mapsto> (makeChan 0)
                    \<lparr>received := [\<lparr>UserId = ''u1'', UpdateType = ''DELETED'', UpdatedUser = None\<rparr>]\<rparr>],
         dropLog = [dropLine]\<rparr>,
      phase = [1 \<mapsto> Finished, 2 \<mapsto> Registered],
      notifying = Map.empty,
      panicked = False\<rparr>"

section \<open>Properties of the sweep\<close>

lemma sweepKeys_other: "k \<notin> set ks \<Longrightarrow> sweepKeys d now ks m k = m k"
  by (induction ks arbitrary: m) (auto split: option.splits)

lemma sweepKeys_visited:
  "k \<in> set ks \<Longrightarrow>
   sweepKeys d now ks m k =
     (case m k of None \<Rightarrow> None | Some it \<Rightarrow> if expired d now it then None else Some it)"
proof (induction ks arbitrary: m)
  case Nil
  then show ?case by simp
next
  case (Cons a ks)
  show ?case
  proof (cases "k \<in> set ks")
    case True
    then show ?thesis
      using Cons.IH [OF True] by (auto split: option.splits)
  next
    case False
    with Cons.prems have "a = k" by simp
    with False show ?thesis
      by (auto simp: sweepKeys_other split: option.splits)
  qed
qed

text \<open>
  C7. The sweep runs at an interval of one second, whatever the duration of the store
  is, and one pass of it, visiting the keys of the map in any order, deletes exactly
  the items whose age at the time of the pass is at least the duration: such an item
  is gone afterwards, every younger item is still in the map as it was, and no key is
  added.
\<close>

theorem cleanUpPass_removes_exactly_expired:
  assumes "cleanUpActive s" and "rangeOrder ks (entries s)"
  shows "sleepInterval (NewStore nm d :: ('k, 'v) store) = Second \<and>
         sleepInterval (cleanUpPass s now ks) = sleepInterval s \<and>
         entries (cleanUpPass s now ks) k =
           (case entries s k of
              None \<Rightarrow> None
            | Some it \<Rightarrow> if age now it \<ge> duration s then None else Some it)"
proof -
  have interval: "sleepInterval (NewStore nm d :: ('k, 'v) store) = Second"
    by (simp add: sleepInterval_def NewStore_def)
  have same: "sleepInterval (cleanUpPass s now ks) = sleepInterval s"
    by (simp add: sleepInterval_def cleanUpPass_def)
  have pass: "entries (cleanUpPass s now ks) k =
           (case entries s k of
              None \<Rightarrow> None
            | Some it \<Rightarrow> if age now it \<ge> duration s then None else Some it)"
  proof (cases "entries s = Map.empty")
    case True
    then show ?thesis by (simp add: cleanUpPass_def)
  next
    case False
    show ?thesis
    proof (cases "k \<in> set ks")
      case True
      with False assms(1) show ?thesis
        by (simp add: cleanUpPass_def sweepKeys_visited expired_def split: option.splits)
    next
      case notin: False
      with assms(2) have "entries s k = None"
        by (auto simp: rangeOrder_def)
      with notin False assms(1) show ?thesis
        by (simp add: cleanUpPass_def sweepKeys_other)
    qed
  qed
  from interval same pass show ?thesis by simp
qed

theorem cleanUpPass_removes_exactly_expired_witness:
  "cleanUpActive sweepExample \<and> rangeOrder [''new'', ''old''] (entries sweepExample) \<and>
   entries (cleanUpPass sweepExample Second [''new'', ''old'']) ''old'' = None \<and>
   entries (cleanUpPass sweepExample Second [''new'', ''old'']) ''new'' =
     Some \<lparr>key = ''new'', created = 1, data = ''v2''\<rparr>"
proof -
  have a: "cleanUpActive sweepExample"
    by (simp add: sweepExample_def)
  have r: "rangeOrder [''new'', ''old''] (entries sweepExample)"
    by (auto simp: rangeOrder_def sweepExample_def)
  note t = cleanUpPass_removes_exactly_expired [OF a r, where now = Second and nm = "''testStore''" and d = Second,
      THEN conjunct2, THEN conjunct2]
  have old: "entries (cleanUpPass sweepExample Second [''new'', ''old'']) ''old'' = None"
    unfolding t by (simp add: sweepExample_def age_def Second_def)
  have new: "entries (cleanUpPass sweepExample Second [''new'', ''old'']) ''new'' =
     Some \<lparr>key = ''new'', created = 1, data = ''v2''\<rparr>"
    unfolding t by (simp add: sweepExample_def age_def Second_def)
  from a r old new show ?thesis by simp
qed


section \<open>Properties of GetData without interleaving\<close>

text \<open>
  A miss, that is a missing key or an item that has reached the duration at the reading
  of \<^verbatim>\<open>time.Since\<close>, calls the loader once; a loaded value is stored with the stamp
  of \<^verbatim>\<open>time.Now()\<close>, an error leaves the store as it was.
\<close>

lemma GetData_load:
  assumes "entries s k = None \<or> (\<exists>it. entries s k = Some it \<and> expired (duration s) tS it)"
  shows "GetData z s k f tS tN =
     (case f k of
        (d, Some e) \<Rightarrow> ((z, Some e), s, 1)
      | (d, None) \<Rightarrow>
          ((d, None), s\<lparr>entries := (entries s)(k \<mapsto> \<lparr>key = k, created = tN, data = d\<rparr>)\<rparr>, 1))"
  using assms
  by (auto simp: GetData_def secLookup_def secRecheck_def secAgeCheck_def addData_def
      itemData_def Let_def split: option.splits prod.splits)

text \<open>A hit returns the item's data, calls no loader and leaves the store as it was.\<close>

lemma GetData_hit:
  assumes "entries s k = Some it" and "\<not> expired (duration s) tS it"
  shows "GetData z s k f tS tN = ((data it, None), s, 0)"
  using assms
  by (simp add: GetData_def secLookup_def secAgeCheck_def itemData_def)

text \<open>
  C3. When the loader fails on a miss (the key is missing, or its item has expired),
  \<^verbatim>\<open>GetData\<close> returns the zero value with the loader's error and has called the loader
  once; the store is unchanged, so no item was written and a stale item is still in
  the map as it was. A later call for the key, with any loader, calls its loader
  again.
\<close>

theorem GetData_loader_error:
  assumes "entries s k = None \<or> (\<exists>it. entries s k = Some it \<and> expired (duration s) tS it)"
    and "f k = (d, Some e)"
    and "tS \<le> tS'"
  shows "GetData z s k f tS tN = ((z, Some e), s, 1) \<and>
         loaderCalls (GetData z (storeAfter (GetData z s k f tS tN)) k g tS' tN') = 1"
proof -
  have first: "GetData z s k f tS tN = ((z, Some e), s, 1)"
    using assms(2) by (simp add: GetData_load [OF assms(1)])
  have still: "entries s k = None \<or> (\<exists>it. entries s k = Some it \<and> expired (duration s) tS' it)"
    using assms(1,3) by (auto simp: expired_def age_def)
  have "loaderCalls (GetData z s k g tS' tN') = 1"
    by (simp add: GetData_load [OF still] loaderCalls_def split: prod.splits option.splits)
  with first show ?thesis by (simp add: storeAfter_def)
qed

theorem GetData_loader_error_witness:
  "(\<exists>it. entries sweepExample ''old'' = Some it \<and> expired (duration sweepExample) Second it) \<and>
   boom ''old'' = ([], Some ''boom'') \<and>
   Second \<le> 2 * Second \<and>
   GetData [] sweepExample ''old'' boom Second Second = (([], Some ''boom''), sweepExample, 1) \<and>
   loaderCalls (GetData [] sweepExample ''old'' boom (2 * Second) (2 * Second)) = 1"
proof -
  have h1: "entries sweepExample ''old'' = None \<or>
      (\<exists>it. entries sweepExample ''old'' = Some it \<and> expired (duration sweepExample) Second it)"
    by (simp add: sweepExample_def expired_def age_def)
  have h2: "boom ''old'' = ([], Some ''boom'')"
    by (simp add: boom_def)
  have h3: "Second \<le> 2 * Second"
    by (simp add: Second_def)
  note t = GetData_loader_error [where f = boom and g = boom and z = "[]" and tN = Second
      and tN' = "2 * Second", OF h1 h2 h3]
  have first: "GetData [] sweepExample ''old'' boom Second Second =
      (([], Some ''boom''), sweepExample, 1)"
    using t by (rule conjunct1)
  have again: "loaderCalls (GetData [] sweepExample ''old'' boom (2 * Second) (2 * Second)) = 1"
    using t [THEN conjunct2] unfolding first storeAfter_def by simp
  have stale: "\<exists>it. entries sweepExample ''old'' = Some it \<and>
      expired (duration sweepExample) Second it"
    by (simp add: sweepExample_def expired_def age_def)
  from stale h2 h3 first again show ?thesis by simp
qed

text \<open>
  After a successful call the map holds an item for the key with the returned value,
  stamped with the call's \<^verbatim>\<open>time.Now()\<close> reading when the call loaded it; while that
  item is younger than the duration, a call returns its value, calls no loader and
  leaves the store unchanged.
\<close>

lemma GetData_window:
  assumes "GetData z (s :: ('k, 'v) store) k (f :: 'k \<Rightarrow> 'v \<times> 'e option) tS t0 = ((v, None), s', n)"
  shows "\<exists>it. entries s' k = Some it \<and> data it = v \<and> (n \<noteq> 0 \<longrightarrow> created it = t0) \<and>
           (\<forall>t1 tN f'. t1 - created it < duration s' \<longrightarrow>
                GetData z s' k f' t1 tN = ((v, None::'e option), s', 0))"
proof (cases "entries s k = None \<or> (\<exists>it. entries s k = Some it \<and> expired (duration s) tS it)")
  case True
  obtain d eo where fk: "f k = (d, eo)" by (cases "f k")
  from assms fk have eo: "eo = None" and dv: "d = v"
    and s': "s' = s\<lparr>entries := (entries s)(k \<mapsto> \<lparr>key = k, created = t0, data = d\<rparr>)\<rparr>"
    and n: "n = 1"
    by (auto simp: GetData_load [OF True] split: option.splits)
  let ?it = "\<lparr>key = k, created = t0, data = v\<rparr>"
  have e: "entries s' k = Some ?it" using s' dv by simp
  have "GetData z s' k f' t1 tN = ((v, None), s', 0)" if "t1 - created ?it < duration s'" for t1 tN and f' :: "'k \<Rightarrow> 'v \<times> 'e option"
    using GetData_hit [OF e, of t1 z f' tN] that by (simp add: expired_def age_def)
  with e show ?thesis by auto
next
  case False
  then obtain it where e: "entries s k = Some it" and fresh: "\<not> expired (duration s) tS it"
    by auto
  from assms have v: "v = data it" and s': "s' = s" and n: "n = 0"
    by (auto simp: GetData_hit [OF e fresh])
  have "GetData z s' k f' t1 tN = ((v, None), s', 0)" if "t1 - created it < duration s'" for t1 tN and f' :: "'k \<Rightarrow> 'v \<times> 'e option"
    using GetData_hit [of s k it t1 z f' tN] e that s' v by (simp add: expired_def age_def)
  with e s' v n show ?thesis by auto
qed

text \<open>
  C2. When a call of \<^verbatim>\<open>GetData\<close> for a key succeeds at \<open>t0\<close> with a value it has
  loaded (its loader ran, and the item was stamped with the reading \<open>t0\<close> of
  \<^verbatim>\<open>time.Now()\<close>), every later call for the key, with any loader, at a reading \<open>t1\<close>
  with \<open>t0 \<le> t1 < t0 + ttl\<close> returns that value, calls no loader, and leaves the
  store, and so the item of the key, unchanged.
\<close>

theorem GetData_memoized:
  assumes "GetData z (s :: ('k, 'v) store) k (f :: 'k \<Rightarrow> 'v \<times> 'e option) tS t0 = ((v, None), s', n)"
    and "n \<noteq> 0"
    and "t0 \<le> t1"
    and "t1 < t0 + duration s'"
  shows "entries s' k = Some \<lparr>key = k, created = t0, data = v\<rparr> \<and>
         GetData z s' k f' t1 tN = ((v, None :: 'e option), s', 0)"
proof -
  have miss: "entries s k = None \<or> (\<exists>it. entries s k = Some it \<and> expired (duration s) tS it)"
  proof (rule ccontr)
    assume "\<not> (entries s k = None \<or> (\<exists>it. entries s k = Some it \<and> expired (duration s) tS it))"
    then obtain it where e: "entries s k = Some it" and fresh: "\<not> expired (duration s) tS it"
      by auto
    from GetData_hit [OF e fresh, of z f t0] assms(1,2) show False
      by simp
  qed
  obtain d eo where fk: "f k = (d, eo)"
    by (cases "f k")
  from assms(1) fk have dv: "d = v"
    and s': "s' = s\<lparr>entries := (entries s)(k \<mapsto> \<lparr>key = k, created = t0, data = d\<rparr>)\<rparr>"
    by (auto simp: GetData_load [OF miss] split: option.splits)
  let ?it = "\<lparr>key = k, created = t0, data = v\<rparr>"
  have item: "entries s' k = Some ?it"
    using s' dv by simp
  from assms(4) have "\<not> expired (duration s') t1 ?it"
    by (simp add: expired_def age_def)
  from GetData_hit [OF item this, of z f' tN] item show ?thesis
    by simp
qed

theorem GetData_memoized_witness:
  "GetData [] (NewStore ''testStore'' Second) ''a'' loadV2 0 0 =
     ((''v2'', None),
      (NewStore ''testStore'' Second)
        \<lparr>entries := [''a'' \<mapsto> \<lparr>key = ''a'', created = 0, data = ''v2''\<rparr>]\<rparr>, 1) \<and>
   (1 :: nat) \<noteq> 0 \<and> (0 :: int) \<le> 999999999 \<and>
   999999999 < 0 + duration ((NewStore ''testStore'' Second :: (string, string) store)
        \<lparr>entries := [''a'' \<mapsto> \<lparr>key = ''a'', created = 0, data = ''v2''\<rparr>]\<rparr>) \<and>
   GetData [] ((NewStore ''testStore'' Second)
        \<lparr>entries := [''a'' \<mapsto> \<lparr>key = ''a'', created = 0, data = ''v2''\<rparr>]\<rparr>)
      ''a'' boom 999999999 999999999 =
     ((''v2'', None),
      (NewStore ''testStore'' Second)
        \<lparr>entries := [''a'' \<mapsto> \<lparr>key = ''a'', created = 0, data = ''v2''\<rparr>]\<rparr>, 0)"
proof -
  let ?s' = "(NewStore ''testStore'' Second :: (string, string) store)
        \<lparr>entries := [''a'' \<mapsto> \<lparr>key = ''a'', created = 0, data = ''v2''\<rparr>]\<rparr>"
  have first: "GetData [] (NewStore ''testStore'' Second) ''a'' loadV2 0 0 = ((''v2'', None), ?s', 1)"
    by (simp add: GetData_def secLookup_def secRecheck_def secAgeCheck_def addData_def
        itemData_def NewStore_def loadV2_def Let_def)
  have loaded: "(1 :: nat) \<noteq> 0"
    by simp
  have after: "(0 :: int) \<le> 999999999"
    by simp
  have inside: "999999999 < 0 + duration ?s'"
    by (simp add: NewStore_def Second_def)
  have later: "GetData [] ?s' ''a'' boom 999999999 999999999 = ((''v2'', None), ?s', 0)"
    using GetData_memoized [OF first loaded after inside, where f' = boom and tN = 999999999]
    by (rule conjunct2)
  from first loaded after inside later show ?thesis
    by simp
qed

text \<open>
  Along a sequence of events with a monotonic clock every stamp is a past reading, and
  the duration of the store stays what \<^verbatim>\<open>NewStore\<close> was given.
\<close>

lemma sweepKeys_sub: "sweepKeys d now ks m k = Some it \<Longrightarrow> m k = Some it"
proof (induction ks arbitrary: m)
  case Nil
  then show ?case by simp
next
  case (Cons a ks)
  let ?m = "case m a of None \<Rightarrow> m | Some i \<Rightarrow> if expired d now i then m(a := None) else m"
  from Cons.prems have "sweepKeys d now ks ?m k = Some it"
    by simp
  then have "?m k = Some it"
    by (rule Cons.IH)
  then show ?case
    by (auto split: option.splits if_splits)
qed

lemma GetData_entries:
  "entries (storeAfter (GetData z s k f tS tN)) x = Some it \<Longrightarrow>
   entries s x = Some it \<or> created it = tN"
  by (auto simp: GetData_def storeAfter_def secLookup_def secRecheck_def secAgeCheck_def
      addData_def Let_def split: option.splits prod.splits sum.splits if_splits)

lemma GetData_duration: "duration (storeAfter (GetData z s k f tS tN)) = duration s"
  by (auto simp: GetData_def storeAfter_def secLookup_def secRecheck_def secAgeCheck_def
      addData_def Let_def split: option.splits prod.splits sum.splits)

lemma applyEvent_stamped:
  assumes "stampedBy t (fst c)" and "clockOrdered t (ev # evs)"
  shows "stampedBy (lastReading t [ev]) (fst (applyEvent z ev c)) \<and>
         duration (fst (applyEvent z ev c)) = duration (fst c) \<and>
         clockOrdered (lastReading t [ev]) evs"
proof (cases c)
  case (Pair s j)
  show ?thesis
  proof (cases ev)
    case (CallGetData k f tS tN)
    have "created it \<le> tN" if "entries (storeAfter (GetData z s k f tS tN)) x = Some it" for x it
    proof -
      from GetData_entries [OF that] show ?thesis
      proof
        assume "entries s x = Some it"
        with assms(1) Pair have "created it \<le> t"
          by (auto simp: stampedBy_def)
        with assms(2) CallGetData show ?thesis
          by simp
      next
        assume "created it = tN"
        then show ?thesis by simp
      qed
    qed
    with assms Pair CallGetData show ?thesis
      by (simp add: applyEvent_def stampedBy_def GetData_duration)
  next
    case CallClear
    with assms Pair show ?thesis
      by (simp add: applyEvent_def stampedBy_def Clear_def)
  next
    case (JobStep now ks)
    have before: "stampedBy now s"
      unfolding stampedBy_def
    proof (intro allI impI)
      fix x it
      assume "entries s x = Some it"
      with assms(1) Pair have "created it \<le> t"
        by (auto simp: stampedBy_def)
      with assms(2) JobStep show "created it \<le> now"
        by simp
    qed
    have after: "stampedBy now (cleanUpPass s now ks)"
      unfolding stampedBy_def
    proof (intro allI impI)
      fix x it
      assume "entries (cleanUpPass s now ks) x = Some it"
      then have "entries s x = Some it"
        by (auto simp: cleanUpPass_def dest: sweepKeys_sub split: if_splits)
      with before show "created it \<le> now"
        by (auto simp: stampedBy_def)
    qed
    have dur: "duration (cleanUpPass s now ks) = duration s"
      by (simp add: cleanUpPass_def)
    from assms(2) Pair JobStep before after dur show ?thesis
      by (cases j) (simp_all add: applyEvent_def jobStep_def)
  qed
qed

lemma lastReading_Cons: "lastReading t (ev # evs) = lastReading (lastReading t [ev]) evs"
  by (cases ev) simp_all

lemma runEvents_stamped:
  "stampedBy t (fst c) \<Longrightarrow> clockOrdered t evs \<Longrightarrow>
   stampedBy (lastReading t evs) (fst (runEvents z evs c)) \<and>
   duration (fst (runEvents z evs c)) = duration (fst c)"
proof (induction evs arbitrary: c t)
  case Nil
  then show ?case by simp
next
  case (Cons ev evs)
  from applyEvent_stamped [OF Cons.prems, where z = z]
  have s: "stampedBy (lastReading t [ev]) (fst (applyEvent z ev c))"
    and d: "duration (fst (applyEvent z ev c)) = duration (fst c)"
    and o: "clockOrdered (lastReading t [ev]) evs"
    by simp_all
  from Cons.IH [OF s o] d show ?case
    by (simp add: lastReading_Cons [of t ev evs])
qed

lemma zero_duration_loads:
  assumes "clockOrdered t0 evs" and "lastReading t0 evs \<le> tS"
  shows "loaderCalls (GetData z (fst (runEvents z evs (startStore nm 0))) k f tS tN) = 1"
proof -
  let ?s = "fst (runEvents z evs (startStore nm 0))"
  have "stampedBy t0 (fst (startStore nm 0 :: ('a, 'b) store \<times> job))"
    by (simp add: stampedBy_def startStore_def NewStore_def)
  from runEvents_stamped [OF this assms(1), where z = z]
  have st: "stampedBy (lastReading t0 evs) ?s" and du: "duration ?s = 0"
    by (simp_all add: startStore_def NewStore_def)
  have "expired (duration ?s) tS it" if "entries ?s k = Some it" for it
  proof -
    from st that have "created it \<le> lastReading t0 evs"
      by (auto simp: stampedBy_def)
    with assms(2) du show ?thesis
      by (simp add: expired_def age_def)
  qed
  then have "entries ?s k = None \<or> (\<exists>it. entries ?s k = Some it \<and> expired (duration ?s) tS it)"
    by (cases "entries ?s k") auto
  from GetData_load [OF this, of z f tN] show ?thesis
    by (simp add: loaderCalls_def split: prod.splits option.splits)
qed

text \<open>
  C4. Expiry is \<open>age \<ge> duration\<close>, the boundary included, in \<^verbatim>\<open>GetData\<close> (a present
  item makes the call load exactly when its age has reached the duration) and in the
  sweep (a present item is deleted exactly then). A reload stores an item stamped with
  the reading of \<^verbatim>\<open>time.Now()\<close>, whose age at that reading is 0. With a duration of 0
  every call loads: a missing key always does, and a present item has an age of at
  least 0, its stamp being an earlier reading of the monotonic clock. So for a store
  made by \<^verbatim>\<open>NewStore\<close> with duration 0, after any sequence of calls and sweeps, the
  next call of \<^verbatim>\<open>GetData\<close> calls its loader.
\<close>

theorem expiry_semantics:
  "(entries s k = Some it \<longrightarrow>
      loaderCalls (GetData z s k f tS tN) = (if duration s \<le> age tS it then 1 else 0)) \<and>
   (cleanUpActive s \<and> rangeOrder ks (entries s) \<and> entries s k = Some it \<longrightarrow>
      entries (cleanUpPass s now ks) k = (if duration s \<le> age now it then None else Some it)) \<and>
   (entries s k = Some it \<and> duration s \<le> age tS it \<and> f k = (d, None) \<longrightarrow>
      (\<exists>it'. entries (storeAfter (GetData z s k f tS tN)) k = Some it' \<and>
             data it' = d \<and> created it' = tN \<and> age tN it' = 0)) \<and>
   (duration s = 0 \<and> (\<forall>i. entries s k = Some i \<longrightarrow> created i \<le> tS) \<longrightarrow>
      loaderCalls (GetData z s k f tS tN) = 1) \<and>
   (clockOrdered tFirst evs \<and> lastReading tFirst evs \<le> tS \<longrightarrow>
      loaderCalls (GetData z (fst (runEvents z evs (startStore nm 0))) k f tS tN) = 1)"
proof -
  have a: "loaderCalls (GetData z s k f tS tN) = (if duration s \<le> age tS it then 1 else 0)"
    if e: "entries s k = Some it"
  proof (cases "expired (duration s) tS it")
    case True
    with e have "entries s k = None \<or> (\<exists>it. entries s k = Some it \<and> expired (duration s) tS it)"
      by simp
    from GetData_load [OF this, of z f tN] True show ?thesis
      by (simp add: loaderCalls_def expired_def split: prod.splits option.splits)
  next
    case False
    from GetData_hit [OF e False, of z f tN] False show ?thesis
      by (simp add: loaderCalls_def expired_def)
  qed
  have b: "entries (cleanUpPass s now ks) k = (if duration s \<le> age now it then None else Some it)"
    if "cleanUpActive s" "rangeOrder ks (entries s)" "entries s k = Some it"
  proof -
    have "k \<in> set ks" using that by (auto simp: rangeOrder_def)
    moreover have "entries s \<noteq> Map.empty" using that(3) by auto
    ultimately show ?thesis using that(1,3)
      by (simp add: cleanUpPass_def sweepKeys_visited expired_def)
  qed
  have c: "\<exists>it'. entries (storeAfter (GetData z s k f tS tN)) k = Some it' \<and>
             data it' = d \<and> created it' = tN \<and> age tN it' = 0"
    if e: "entries s k = Some it" and x: "duration s \<le> age tS it" and fk: "f k = (d, None)"
  proof -
    from e x have "entries s k = None \<or> (\<exists>it. entries s k = Some it \<and> expired (duration s) tS it)"
      by (simp add: expired_def)
    from GetData_load [OF this, of z f tN] fk show ?thesis
      by (simp add: storeAfter_def age_def)
  qed
  have d: "loaderCalls (GetData z s k f tS tN) = 1"
    if z: "duration s = 0" and mono: "\<forall>i. entries s k = Some i \<longrightarrow> created i \<le> tS"
  proof -
    from z mono have "entries s k = None \<or> (\<exists>it. entries s k = Some it \<and> expired (duration s) tS it)"
      by (cases "entries s k") (auto simp: expired_def age_def)
    from GetData_load [OF this, of z f tN] show ?thesis
      by (simp add: loaderCalls_def split: prod.splits option.splits)
  qed
  have e: "loaderCalls (GetData z (fst (runEvents z evs (startStore nm 0))) k f tS tN) = 1"
    if "clockOrdered tFirst evs" "lastReading tFirst evs \<le> tS"
    using that by (rule zero_duration_loads)
  from a b c d e show ?thesis by blast
qed

theorem expiry_semantics_witness:
  "entries sweepExample ''old'' = Some \<lparr>key = ''old'', created = 0, data = ''v1''\<rparr> \<and>
   age Second \<lparr>key = ''old'', created = 0, data = ''v1''\<rparr> = duration sweepExample \<and>
   loaderCalls (GetData [] sweepExample ''old'' loadV2 Second (Second + 5)) = 1 \<and>
   entries (cleanUpPass sweepExample Second [''new'', ''old'']) ''old'' = None \<and>
   (\<exists>it'. entries (storeAfter (GetData [] sweepExample ''old'' loadV2 Second (Second + 5))) ''old''
            = Some it' \<and>
          data it' = ''v2'' \<and> created it' = Second + 5 \<and> age (Second + 5) it' = 0) \<and>
   loaderCalls (GetData [] (sweepExample\<lparr>duration := 0\<rparr>) ''old'' loadV2 0 0) = 1 \<and>
   clockOrdered 0 [CallGetData ''a'' loadV2 0 0, JobStep 0 [''a'']] \<and>
   loaderCalls (GetData []
     (fst (runEvents [] [CallGetData ''a'' loadV2 0 0, JobStep 0 [''a'']]
        (startStore ''testStore'' 0))) ''a'' loadV2 0 0) = 1"
proof -
  let ?old = "\<lparr>key = ''old'', created = 0, data = ''v1''\<rparr> :: (string, string) cacheItem"
  have e: "entries sweepExample ''old'' = Some ?old"
    by (simp add: sweepExample_def)
  have bd: "age Second ?old = duration sweepExample"
    by (simp add: age_def sweepExample_def)
  have act: "cleanUpActive sweepExample"
    by (simp add: sweepExample_def)
  have ord: "rangeOrder [''new'', ''old''] (entries sweepExample)"
    by (auto simp: rangeOrder_def sweepExample_def)
  have fk: "loadV2 ''old'' = (''v2'', None)"
    by (simp add: loadV2_def)
  note t = expiry_semantics [where s = sweepExample and k = "''old''" and it = ?old
      and tS = Second and now = Second and ks = "[''new'', ''old'']" and f = loadV2
      and z = "[]" and tN = "Second + 5" and d = "''v2''"]
  have a: "loaderCalls (GetData [] sweepExample ''old'' loadV2 Second (Second + 5)) = 1"
    using t [THEN conjunct1] e bd by simp
  have b: "entries (cleanUpPass sweepExample Second [''new'', ''old'']) ''old'' = None"
    using t [THEN conjunct2, THEN conjunct1] e bd act ord by simp
  have c: "\<exists>it'. entries (storeAfter (GetData [] sweepExample ''old'' loadV2 Second (Second + 5))) ''old''
            = Some it' \<and>
          data it' = ''v2'' \<and> created it' = Second + 5 \<and> age (Second + 5) it' = 0"
    using t [THEN conjunct2, THEN conjunct2, THEN conjunct1] e bd fk by simp
  have e0: "\<forall>i. entries (sweepExample\<lparr>duration := 0\<rparr>) ''old'' = Some i \<longrightarrow> created i \<le> 0"
    by (simp add: sweepExample_def)
  have d: "loaderCalls (GetData [] (sweepExample\<lparr>duration := 0\<rparr>) ''old'' loadV2 0 0) = 1"
    using expiry_semantics [where s = "sweepExample\<lparr>duration := 0\<rparr>" and k = "''old''"
        and tS = 0 and f = loadV2 and z = "[]" and tN = 0,
        THEN conjunct2, THEN conjunct2, THEN conjunct2, THEN conjunct1] e0
    by simp
  have co: "clockOrdered 0 [CallGetData ''a'' loadV2 0 0, JobStep 0 [''a'']]"
    by simp
  have lr: "lastReading 0 [CallGetData ''a'' loadV2 0 0, JobStep 0 [''a'']] \<le> 0"
    by simp
  have r: "loaderCalls (GetData []
     (fst (runEvents [] [CallGetData ''a'' loadV2 0 0, JobStep 0 [''a'']]
        (startStore ''testStore'' 0))) ''a'' loadV2 0 0) = 1"
    using expiry_semantics [where tFirst = 0 and tS = 0
        and evs = "[CallGetData ''a'' loadV2 0 0, JobStep 0 [''a'']]" and z = "[]"
        and nm = "''testStore''" and k = "''a''" and f = loadV2 and tN = 0,
        THEN conjunct2, THEN conjunct2, THEN conjunct2, THEN conjunct2] co lr
    by blast
  from e bd a b c d co r show ?thesis by blast
qed


section \<open>Interleaved calls of GetData\<close>

lemmas section_defs = secLookup_def secRecheck_def secAgeCheck_def addData_def itemData_def
  expired_def age_def Let_def

text \<open>The call without interleaving is the three sections of one goroutine in a row.\<close>

lemma GetData_as_steps:
  "runSchedule z k f [(0, tS, tN), (0, tS, tN), (0, tS, tN)] ((s, 0), [AtLookup]) =
     ((storeAfter (GetData z s k f tS tN), loaderCalls (GetData z s k f tS tN)),
      [Returned (returned (GetData z s k f tS tN))])"
  by (auto simp: GetData_def stepActivation_def returned_def storeAfter_def loaderCalls_def
      secLookup_def split: prod.splits sum.splits)

text \<open>
  C1. Two goroutines call \<^verbatim>\<open>GetData\<close> for the key \<open>old\<close>, whose item has expired.
  Both make their first lookup before either reloads; each then finds its own copy of
  the item expired in the third section, and the loader is called twice. When the key
  is missing instead, the second section looks the key up again under the write lock,
  and two goroutines that both missed call the loader once.
\<close>

theorem expired_reload_not_collapsed:
  "runSchedule [] ''old'' loadV2
     [(0, Second, Second), (1, Second, Second), (0, Second, Second), (1, Second, Second)]
     ((sweepExample, 0), [AtLookup, AtLookup]) =
   ((sweepExample\<lparr>entries := (entries sweepExample)
        (''old'' \<mapsto> \<lparr>key = ''old'', created = Second, data = ''v2''\<rparr>)\<rparr>, 2),
    [Returned (''v2'', None), Returned (''v2'', None)]) \<and>
   runSchedule [] ''a'' loadV2
     [(0, 0, 0), (1, 0, 0), (0, 0, 0), (1, 0, 0), (0, 0, 0), (1, 0, 0)]
     ((NewStore ''testStore'' Second, 0), [AtLookup, AtLookup]) =
   (((NewStore ''testStore'' Second)
        \<lparr>entries := [''a'' \<mapsto> \<lparr>key = ''a'', created = 0, data = ''v2''\<rparr>]\<rparr>, 1),
    [Returned (''v2'', None), Returned (''v2'', None)])"
  by (simp add: stepActivation_def section_defs sweepExample_def NewStore_def loadV2_def
      Second_def)

section \<open>The clean-up goroutine cannot be stopped\<close>

lemma GetData_keeps_flag:
  "cleanUpActive (storeAfter (GetData z s k f tS tN)) = cleanUpActive s"
  by (auto simp: GetData_def storeAfter_def secLookup_def secRecheck_def secAgeCheck_def
      addData_def Let_def split: option.splits prod.splits sum.splits)

lemma applyEvent_keeps_running:
  assumes "cleanUpActive (fst c)" and "snd c \<noteq> Exited"
  shows "cleanUpActive (fst (applyEvent z ev c)) \<and> snd (applyEvent z ev c) \<noteq> Exited"
proof (cases c)
  case (Pair s j)
  with assms show ?thesis
    by (cases ev; cases j)
      (simp_all add: applyEvent_def GetData_keeps_flag Clear_def jobStep_def cleanUpPass_def)
qed

lemma runEvents_keeps_running:
  "cleanUpActive (fst c) \<Longrightarrow> snd c \<noteq> Exited \<Longrightarrow>
   cleanUpActive (fst (runEvents z evs c)) \<and> snd (runEvents z evs c) \<noteq> Exited"
proof (induction evs arbitrary: c)
  case Nil
  then show ?case by simp
next
  case (Cons ev evs)
  from applyEvent_keeps_running [OF Cons.prems, of z ev]
  show ?case by (simp add: Cons.IH)
qed

text \<open>
  C8, as amended. The store has no operation that stops the sweep: the flag
  \<^verbatim>\<open>cleanUpActive\<close> is set by \<^verbatim>\<open>NewStore\<close> and written nowhere else, so after any
  sequence of calls of \<^verbatim>\<open>GetData\<close> and \<^verbatim>\<open>Clear\<close> and steps of the clean-up
  goroutine the flag is still set and the goroutine has not left its loop.
\<close>

theorem cleanUpJob_never_stops:
  "cleanUpActive (fst (runEvents z evs (startStore nm d))) \<and>
   snd (runEvents z evs (startStore nm d)) \<noteq> Exited"
  by (rule runEvents_keeps_running) (simp_all add: startStore_def NewStore_def)

text \<open>
  C8 as stated fails: for the store of the users, no sequence of operations makes the
  clean-up goroutine leave its loop.
\<close>

theorem no_shutdown_counterexample:
  "\<not> (\<exists>evs :: (int, string list, string) event list.
        snd (runEvents [] evs (startStore ''userStore'' (Second * 20))) = Exited)"
proof
  assume "\<exists>evs :: (int, string list, string) event list.
        snd (runEvents [] evs (startStore ''userStore'' (Second * 20))) = Exited"
  then obtain evs :: "(int, string list, string) event list" where
    "snd (runEvents [] evs (startStore ''userStore'' (Second * 20))) = Exited" ..
  moreover have "snd (runEvents [] evs (startStore ''userStore'' (Second * 20))) \<noteq> Exited"
    by (rule runEvents_keeps_running [THEN conjunct2]) (simp_all add: startStore_def NewStore_def)
  ultimately show False by simp
qed


section \<open>Writes and the users cache\<close>

lemma InsertUser_store: "userStore (snd (InsertUser mc u d)) = userStore d"
  by (simp add: InsertUser_def split: prod.splits option.splits)

lemma UpdateUser_store: "userStore (snd (UpdateUser mc u now d)) = userStore d"
  by (simp add: UpdateUser_def split: prod.splits option.splits)

lemma DeleteUser_store: "userStore (snd (DeleteUser mc uid d)) = userStore d"
  by (simp add: DeleteUser_def split: prod.splits option.splits)

lemma DeleteAllUsers_store: "userStore (snd (DeleteAllUsers mc d)) = userStore d"
  by (simp add: DeleteAllUsers_def split: prod.splits option.splits)

lemma GetUsers_hit:
  assumes "entries (userStore d) 0 = Some it" and "age tS it < duration (userStore d)"
  shows "GetUsers mc d tS tN = ((data it, None), d, 0)"
proof -
  from assms(2) have "\<not> expired (duration (userStore d)) tS it"
    by (simp add: expired_def)
  from GetData_hit [OF assms(1) this, of "[]" "findAllUsers mc (userCollection d)" tN]
  show ?thesis
    by (simp add: GetUsers_def)
qed

text \<open>
  C10. \<^verbatim>\<open>InsertUser\<close>, \<^verbatim>\<open>UpdateUser\<close>, \<^verbatim>\<open>DeleteUser\<close> and \<^verbatim>\<open>DeleteAllUsers\<close> leave
  \<^verbatim>\<open>userStore\<close> as it was, whether they succeed or fail. The store is made with a
  duration of 20 seconds. So in every later state with the same store, while the item
  under key 0 is younger than 20 seconds, \<^verbatim>\<open>GetUsers\<close> returns the list cached in
  that item, calls no loader (no \<^verbatim>\<open>Find\<close>) and changes nothing.
\<close>

theorem writes_leave_users_cache:
  "userStore (snd (InsertUser mc u d)) = userStore d \<and>
   userStore (snd (UpdateUser mc u now d)) = userStore d \<and>
   userStore (snd (DeleteUser mc uid d)) = userStore d \<and>
   userStore (snd (DeleteAllUsers mc d)) = userStore d \<and>
   duration (userStore (initDb c)) = 20 * Second \<and>
   (userStore d' = userStore d \<and> entries (userStore d) 0 = Some it \<and>
    duration (userStore d) = 20 * Second \<and> age tS it < 20 * Second \<longrightarrow>
      GetUsers mc d' tS tN = ((data it, None), d', 0))"
proof -
  have "GetUsers mc d' tS tN = ((data it, None), d', 0)"
    if "userStore d' = userStore d" "entries (userStore d) 0 = Some it"
      "duration (userStore d) = 20 * Second" "age tS it < 20 * Second"
    using that GetUsers_hit [of d' it tS mc tN] by simp
  then show ?thesis
    by (simp add: InsertUser_store UpdateUser_store DeleteUser_store DeleteAllUsers_store
        initDb_def NewStore_def)
qed

theorem writes_leave_users_cache_witness:
  "snd (DeleteAllUsers listCollection cachedDb) = cachedDb\<lparr>userCollection := []\<rparr> \<and>
   userStore (snd (DeleteAllUsers listCollection cachedDb)) = userStore cachedDb \<and>
   entries (userStore cachedDb) 0 = Some \<lparr>key = 0, created = 0, data = [alice]\<rparr> \<and>
   duration (userStore cachedDb) = 20 * Second \<and>
   age (19 * Second) \<lparr>key = 0 :: int, created = 0, data = [alice]\<rparr> < 20 * Second \<and>
   GetUsers listCollection (snd (DeleteAllUsers listCollection cachedDb)) (19 * Second) (19 * Second) =
     (([alice], None), snd (DeleteAllUsers listCollection cachedDb), 0)"
proof -
  let ?it = "\<lparr>key = 0 :: int, created = 0, data = [alice]\<rparr>"
  let ?d' = "snd (DeleteAllUsers listCollection cachedDb)"
  note t = writes_leave_users_cache [where mc = listCollection and d = cachedDb and d' = ?d'
      and it = ?it and tS = "19 * Second" and tN = "19 * Second" and u = alice and now = 0
      and uid = "[]" and c = "[]"]
  have del: "?d' = cachedDb\<lparr>userCollection := []\<rparr>"
    by (simp add: DeleteAllUsers_def listCollection_def)
  have same: "userStore ?d' = userStore cachedDb"
    using t by (elim conjE)
  have e: "entries (userStore cachedDb) 0 = Some ?it"
    by (simp add: cachedDb_def)
  have dur: "duration (userStore cachedDb) = 20 * Second"
    by (simp add: cachedDb_def NewStore_def)
  have young: "age (19 * Second) ?it < 20 * Second"
    by (simp add: age_def Second_def)
  have "GetUsers listCollection ?d' (19 * Second) (19 * Second) = ((data ?it, None), ?d', 0)"
    using t same e dur young by (elim conjE) simp
  with del same e dur young show ?thesis by simp
qed


section \<open>Properties of NotifyUpdate\<close>

lemma trySend_open:
  "\<not> closed c \<Longrightarrow>
   trySend v c = (if accepts c then (Sent, deliver v c) else (Dropped, c)) \<and>
   \<not> closed (snd (trySend v c))"
  by (simp add: trySend_def deliver_def)

lemma notifyOne_open:
  assumes "chans s ch = Some c" and "\<not> closed c"
  shows "notifyOne upd ch s =
     Inr (if accepts c then s\<lparr>chans := (chans s)(ch \<mapsto> snd (trySend upd c))\<rparr>
          else s\<lparr>dropLog := dropLog s @
                 [''Dropping update for user '' @ UserId upd @ '': channel is full'']\<rparr>)"
  using assms by (simp add: notifyOne_def trySend_def)

lemma notifyLoop_open:
  assumes "distinct ks" and "\<forall>ch\<in>set ks. \<exists>c. chans s ch = Some c \<and> \<not> closed c"
  shows "\<exists>s'. notifyLoop upd ks s = Inr s' \<and> watchers s' = watchers s \<and>
     (\<forall>ch. chans s' ch =
        (if ch \<in> set ks then map_option (\<lambda>c. snd (trySend upd c)) (chans s ch)
         else chans s ch))"
  using assms
proof (induction ks arbitrary: s)
  case Nil
  then show ?case by simp
next
  case (Cons k ks)
  from Cons.prems obtain c where c: "chans s k = Some c" "\<not> closed c"
    by auto
  let ?s1 = "if accepts c then s\<lparr>chans := (chans s)(k \<mapsto> snd (trySend upd c))\<rparr>
          else s\<lparr>dropLog := dropLog s @
                 [''Dropping update for user '' @ UserId upd @ '': channel is full'']\<rparr>"
  have one: "notifyOne upd k s = Inr ?s1"
    by (rule notifyOne_open [OF c])
  have keep: "snd (trySend upd c) = c" if "\<not> accepts c"
    using that c(2) by (simp add: trySend_def)
  have ch1: "chans ?s1 = (chans s)(k \<mapsto> snd (trySend upd c))"
    using c keep by (auto simp: fun_eq_iff)
  have w1: "watchers ?s1 = watchers s"
    by simp
  have rest: "\<forall>ch\<in>set ks. \<exists>c. chans ?s1 ch = Some c \<and> \<not> closed c"
    using Cons.prems unfolding ch1 by auto
  from Cons.prems have "distinct ks" by simp
  from Cons.IH [OF this rest] obtain s' where
    s': "notifyLoop upd ks ?s1 = Inr s'" "watchers s' = watchers ?s1"
      "\<forall>ch. chans s' ch =
        (if ch \<in> set ks then map_option (\<lambda>c. snd (trySend upd c)) (chans ?s1 ch)
         else chans ?s1 ch)"
    by blast
  have "notifyLoop upd (k # ks) s = Inr s'"
    using one s'(1) by simp
  moreover have "watchers s' = watchers s"
    using s'(2) w1 by simp
  moreover have "\<forall>ch. chans s' ch =
        (if ch \<in> set (k # ks) then map_option (\<lambda>c. snd (trySend upd c)) (chans s ch)
         else chans s ch)"
    using s'(3) Cons.prems(1) c unfolding ch1 by auto
  ultimately show ?case by blast
qed

text \<open>
  C5. For every update and every set of watchers whose channels are open (the range
  visiting them in any order), \<^verbatim>\<open>NotifyUpdate\<close> runs to its end without a panic and
  has nothing to return. Every channel of \<^verbatim>\<open>watchers\<close> that could accept the update
  (a blocked receiver, or room in the buffer) has got it; every other channel is as it
  was, so a subscriber that cannot accept loses its own copy only. The loop makes one
  non-blocking send per watcher and so ends after as many steps as there are watchers.
\<close>

theorem NotifyUpdate_best_effort:
  assumes "distinct ks" and "set ks = watchers s"
    and "\<forall>ch\<in>watchers s. \<exists>c. chans s ch = Some c \<and> \<not> closed c"
  shows "\<exists>s'. NotifyUpdate userID updateType user ks s = Inr s' \<and>
     watchers s' = watchers s \<and>
     (\<forall>ch c. chans s ch = Some c \<longrightarrow>
        (\<exists>c'. chans s' ch = Some c' \<and>
           (if ch \<in> watchers s \<and> accepts c
            then c' = deliver \<lparr>UserId = userID, UpdateType = updateType, UpdatedUser = user\<rparr> c
            else c' = c)))"
proof -
  let ?upd = "\<lparr>UserId = userID, UpdateType = updateType, UpdatedUser = user\<rparr>"
  from assms have "\<forall>ch\<in>set ks. \<exists>c. chans s ch = Some c \<and> \<not> closed c"
    by simp
  from notifyLoop_open [OF assms(1) this, of ?upd] obtain s' where
    s': "notifyLoop ?upd ks s = Inr s'" "watchers s' = watchers s"
      "\<forall>ch. chans s' ch =
        (if ch \<in> set ks then map_option (\<lambda>c. snd (trySend ?upd c)) (chans s ch)
         else chans s ch)"
    by blast
  have "\<exists>c'. chans s' ch = Some c' \<and>
           (if ch \<in> watchers s \<and> accepts c then c' = deliver ?upd c else c' = c)"
    if c: "chans s ch = Some c" for ch c
  proof (cases "ch \<in> watchers s")
    case True
    with assms(3) c have op: "\<not> closed c" by auto
    from True s'(3) assms(2) c have "chans s' ch = Some (snd (trySend ?upd c))"
      by simp
    with trySend_open [OF op, of ?upd] True show ?thesis
      by (auto split: if_splits)
  next
    case False
    with s'(3) assms(2) c show ?thesis by simp
  qed
  with s'(1,2) show ?thesis
    by (auto simp: NotifyUpdate_def)
qed

theorem NotifyUpdate_best_effort_witness:
  "distinct [1 :: nat, 2] \<and> set [1, 2] = watchers twoWatchers \<and>
   chans twoWatchers 1 = Some ((makeChan 0)\<lparr>receiverWaiting := True\<rparr>) \<and>
   chans twoWatchers 2 = Some (makeChan 0) \<and>
   \<not> closed ((makeChan 0 :: UserUpdate chan)\<lparr>receiverWaiting := True\<rparr>) \<and>
   \<not> closed (makeChan 0 :: UserUpdate chan) \<and>
   accepts ((makeChan 0 :: UserUpdate chan)\<lparr>receiverWaiting := True\<rparr>) \<and>
   \<not> accepts (makeChan 0 :: UserUpdate chan) \<and>
   (\<exists>s'. NotifyUpdate ''u1'' ''CREATED'' None [1, 2] twoWatchers = Inr s' \<and>
      chans s' 1 = Some ((makeChan 0)\<lparr>received := [created1]\<rparr>) \<and>
      chans s' 2 = Some (makeChan 0))"
proof -
  have d: "distinct [1 :: nat, 2]" by simp
  have w: "set [1, 2] = watchers twoWatchers"
    by (auto simp: twoWatchers_def)
  have o: "\<forall>ch\<in>watchers twoWatchers. \<exists>c. chans twoWatchers ch = Some c \<and> \<not> closed c"
    by (simp add: twoWatchers_def makeChan_def)
  have a1: "accepts ((makeChan 0 :: UserUpdate chan)\<lparr>receiverWaiting := True\<rparr>)"
    by (simp add: accepts_def)
  have a2: "\<not> accepts (makeChan 0 :: UserUpdate chan)"
    by (simp add: accepts_def makeChan_def)
  have c1: "chans twoWatchers 1 = Some ((makeChan 0)\<lparr>receiverWaiting := True\<rparr>)"
    by (simp add: twoWatchers_def)
  have c2: "chans twoWatchers 2 = Some (makeChan 0)"
    by (simp add: twoWatchers_def)
  have m1: "1 \<in> watchers twoWatchers" and m2: "2 \<in> watchers twoWatchers"
    by (simp_all add: twoWatchers_def)
  from NotifyUpdate_best_effort [OF d w o, of "''u1''" "''CREATED''" None] obtain s' where
    s': "NotifyUpdate ''u1'' ''CREATED'' None [1, 2] twoWatchers = Inr s'"
    and each: "\<And>ch c. chans twoWatchers ch = Some c \<Longrightarrow>
        \<exists>c'. chans s' ch = Some c' \<and>
           (if ch \<in> watchers twoWatchers \<and> accepts c
            then c' = deliver \<lparr>UserId = ''u1'', UpdateType = ''CREATED'', UpdatedUser = None\<rparr> c
            else c' = c)"
    by blast
  from each [OF c1] m1 a1 have r1: "chans s' 1 = Some ((makeChan 0)\<lparr>received := [created1]\<rparr>)"
    by (auto simp: deliver_def makeChan_def created1_def)
  from each [OF c2] a2 have r2: "chans s' 2 = Some (makeChan 0)"
    by auto
  have op: "\<not> closed ((makeChan 0 :: UserUpdate chan)\<lparr>receiverWaiting := True\<rparr>)"
    "\<not> closed (makeChan 0 :: UserUpdate chan)"
    by (simp_all add: makeChan_def)
  from d w c1 c2 op a1 a2 s' r1 r2 show ?thesis by blast
qed

section \<open>Properties of the runs of the broadcaster\<close>

lemma serviceInv_init: "serviceInv initWorld"
  by (simp add: serviceInv_def initWorld_def NewUserService_def)

lemma notifyOne_inv:
  assumes "serviceInv w" and "ch \<in> watchers (service w)"
  shows "\<exists>s'. notifyOne upd ch (service w) = Inr s' \<and> watchers s' = watchers (service w) \<and>
     (\<forall>x. x \<noteq> ch \<longrightarrow> chans s' x = chans (service w) x) \<and>
     (\<exists>c c'. chans (service w) ch = Some c \<and> chans s' ch = Some c' \<and> \<not> closed c \<and>
        closed c' = closed c \<and> capacity c' = 0 \<and> buffer c' = [])"
proof -
  from assms have ph: "phase w ch = Some Registered"
    by (simp add: serviceInv_def)
  with assms(1) obtain c where c: "chans (service w) ch = Some c"
    by (fastforce simp: serviceInv_def)
  with assms(1) ph have props: "\<not> closed c" "capacity c = 0" "buffer c = []"
    by (auto simp: serviceInv_def)
  then show ?thesis
    using c by (auto simp: notifyOne_def trySend_def accepts_def deliver_def)
qed


lemma perform_inv:
  assumes "serviceInv w" and "enabled a w"
  shows "serviceInv (perform a w)"
proof (cases a)
  case (WatchMake ch)
  with assms show ?thesis
    by (auto simp: serviceInv_def makeChan_def)
next
  case (WatchRegister ch)
  with assms show ?thesis
    by (auto simp: serviceInv_def)
next
  case (WatchReceive ch)
  with assms show ?thesis
    by (auto simp: serviceInv_def running_def onChan_def receive_def split: option.splits)
next
  case (WatchRemove ch)
  with assms show ?thesis
    by (auto simp: serviceInv_def running_def)
next
  case (WatchClose ch)
  with assms show ?thesis
    by (auto simp: serviceInv_def onChan_def split: option.splits)
next
  case (NotifyBegin n userID updateType user ks)
  with assms show ?thesis
    by (auto simp: serviceInv_def)
next
  case (NotifySend n)
  with assms obtain upd ch rest where nt: "notifying w n = Some (upd, ch # rest)"
    by (auto split: option.splits list.splits)
  have "set (ch # rest) \<subseteq> watchers (service w)"
    using assms(1) nt unfolding serviceInv_def by blast
  then have "ch \<in> watchers (service w)" and rest: "set rest \<subseteq> watchers (service w)"
    by simp_all
  from notifyOne_inv [OF assms(1) this(1), of upd] obtain s' c c' where
    s': "notifyOne upd ch (service w) = Inr s'" "watchers s' = watchers (service w)"
      "\<forall>x. x \<noteq> ch \<longrightarrow> chans s' x = chans (service w) x"
      "chans (service w) ch = Some c" "chans s' ch = Some c'" "\<not> closed c"
      "closed c' = closed c" "capacity c' = 0" "buffer c' = []"
    by blast
  have pf: "perform a w = w\<lparr>service := s', notifying := (notifying w)(n \<mapsto> (upd, rest))\<rparr>"
    using NotifySend nt s'(1) by simp
  have old: "\<not> panicked w"
    "\<forall>ch. ch \<in> watchers (service w) \<longrightarrow> phase w ch = Some Registered"
    "\<forall>ch. phase w ch \<noteq> None \<longrightarrow> chans (service w) ch \<noteq> None"
    "\<forall>ch c. chans (service w) ch = Some c \<longrightarrow>
         (closed c \<longleftrightarrow> phase w ch = Some Finished) \<and> capacity c = 0 \<and> buffer c = []"
    "\<forall>n upd todo. notifying w n = Some (upd, todo) \<longrightarrow> set todo \<subseteq> watchers (service w)"
    using assms(1) by (simp_all add: serviceInv_def)
  have a3: "chans s' x \<noteq> None" if "phase w x \<noteq> None" for x
    using that old(3) s'(3,5) by (cases "x = ch") auto
  have a4: "(closed d \<longleftrightarrow> phase w x = Some Finished) \<and> capacity d = 0 \<and> buffer d = []"
    if "chans s' x = Some d" for x d
  proof (cases "x = ch")
    case True
    with that s'(5) have "d = c'" by simp
    with True old(4) s'(4,6,7,8,9) show ?thesis by auto
  next
    case False
    with that s'(3) old(4) show ?thesis by auto
  qed
  have a5: "set todo \<subseteq> watchers s'"
    if "((notifying w)(n \<mapsto> (upd, rest))) m = Some (u, todo)" for m u todo
    using that old(5) rest s'(2) by (auto split: if_splits)
  show ?thesis
    unfolding pf serviceInv_def using old(1,2) s'(2) a3 a4 a5 by auto
next
  case (NotifyEnd n)
  with assms show ?thesis
    by (auto simp: serviceInv_def split: if_splits)
qed

lemma run_inv: "serviceInv w \<Longrightarrow> run acts w = Some w' \<Longrightarrow> serviceInv w'"
proof (induction acts arbitrary: w)
  case Nil
  then show ?case by simp
next
  case (Cons a acts)
  from Cons.prems(2) have en: "enabled a w" and r: "run acts (perform a w) = Some w'"
    by (simp_all split: if_splits)
  from perform_inv [OF Cons.prems(1) en] r show ?case
    by (rule Cons.IH)
qed

lemma gone_step:
  assumes "serviceInv w" and "enabled a w" and "gone w ch"
  shows "gone (perform a w) ch \<and> receivedBy (perform a w) ch = receivedBy w ch"
proof (cases a)
  case (WatchMake x)
  with assms show ?thesis
    by (auto simp: gone_def receivedBy_def)
next
  case (WatchRegister x)
  with assms show ?thesis
    by (auto simp: gone_def receivedBy_def)
next
  case (WatchReceive x)
  with assms show ?thesis
    by (auto simp: gone_def receivedBy_def running_def onChan_def split: option.splits)
next
  case (WatchRemove x)
  with assms show ?thesis
    by (auto simp: gone_def receivedBy_def running_def)
next
  case (WatchClose x)
  with assms show ?thesis
    by (auto simp: gone_def receivedBy_def onChan_def split: option.splits)
next
  case (NotifyBegin n userID updateType user ks)
  with assms show ?thesis
    by (auto simp: gone_def receivedBy_def)
next
  case (NotifySend n)
  with assms obtain upd x rest where nt: "notifying w n = Some (upd, x # rest)"
    by (auto split: option.splits list.splits)
  have "set (x # rest) \<subseteq> watchers (service w)"
    using assms(1) nt unfolding serviceInv_def by blast
  then have xw: "x \<in> watchers (service w)"
    by simp
  with assms(1) have "phase w x = Some Registered"
    by (simp add: serviceInv_def)
  with assms(3) have ne: "ch \<noteq> x"
    by (auto simp: gone_def)
  from notifyOne_inv [OF assms(1) xw, of upd] obtain s' where
    s': "notifyOne upd x (service w) = Inr s'"
      "\<forall>y. y \<noteq> x \<longrightarrow> chans s' y = chans (service w) y"
    by blast
  have pf: "perform a w = w\<lparr>service := s', notifying := (notifying w)(n \<mapsto> (upd, rest))\<rparr>"
    using NotifySend nt s'(1) by simp
  show ?thesis
    unfolding pf using assms(3) ne s'(2) by (simp add: gone_def receivedBy_def)
next
  case (NotifyEnd n)
  with assms show ?thesis
    by (auto simp: gone_def receivedBy_def)
qed

lemma gone_run:
  "serviceInv w \<Longrightarrow> gone w ch \<Longrightarrow> run acts w = Some w' \<Longrightarrow>
   gone w' ch \<and> receivedBy w' ch = receivedBy w ch"
proof (induction acts arbitrary: w)
  case Nil
  then show ?case by simp
next
  case (Cons a acts)
  from Cons.prems(3) have en: "enabled a w" and r: "run acts (perform a w) = Some w'"
    by (simp_all split: if_splits)
  from gone_step [OF Cons.prems(1) en Cons.prems(2)]
  have g: "gone (perform a w) ch" and same: "receivedBy (perform a w) ch = receivedBy w ch"
    by simp_all
  from Cons.IH [OF perform_inv [OF Cons.prems(1) en] g r] same show ?case
    by simp
qed

lemma run_example: "run exampleActions initWorld = Some exampleWorld"
  by (auto simp: exampleActions_def initWorld_def exampleWorld_def NewUserService_def
      running_def onChan_def receive_def makeChan_def notifyOne_def trySend_def accepts_def
      deliver_def created1_def dropLine_def fun_eq_iff)

lemma run_later: "run laterActions exampleWorld = Some laterWorld"
  by (auto simp: laterActions_def laterWorld_def exampleWorld_def
      running_def onChan_def receive_def makeChan_def notifyOne_def trySend_def accepts_def
      deliver_def created1_def dropLine_def fun_eq_iff)

text \<open>
  C6. In every state a run of the broadcaster reaches, nothing has panicked (no
  \<^verbatim>\<open>NotifyUpdate\<close> has sent on a closed channel), every channel in \<^verbatim>\<open>watchers\<close> is
  on the heap and open, and a closed channel is not in \<^verbatim>\<open>watchers\<close>: a watcher
  deletes its channel before it closes it. Once a watcher has deleted its channel, the
  channel stays out of \<^verbatim>\<open>watchers\<close> and the watcher receives no further update,
  whatever happens afterwards.
\<close>

theorem watchers_open_until_removed:
  assumes "run acts initWorld = Some w"
  shows "\<not> panicked w \<and>
     (\<forall>ch\<in>watchers (service w). \<exists>c. chans (service w) ch = Some c \<and> \<not> closed c) \<and>
     (\<forall>ch c. chans (service w) ch = Some c \<and> closed c \<longrightarrow> ch \<notin> watchers (service w)) \<and>
     (\<forall>ch. gone w ch \<longrightarrow>
        ch \<notin> watchers (service w) \<and>
        (\<forall>acts' w'. run acts' w = Some w' \<longrightarrow>
           ch \<notin> watchers (service w') \<and> receivedBy w' ch = receivedBy w ch))"
proof -
  have i: "serviceInv w"
    using serviceInv_init assms by (rule run_inv)
  then have p: "\<not> panicked w"
    by (simp add: serviceInv_def)
  have reg: "phase w ch = Some Registered" if "ch \<in> watchers (service w)" for ch
    using i that by (simp add: serviceInv_def)
  have cl: "closed c \<longleftrightarrow> phase w ch = Some Finished" if "chans (service w) ch = Some c" for ch c
    using i that unfolding serviceInv_def by blast
  have ex: "chans (service w) ch \<noteq> None" if "phase w ch \<noteq> None" for ch
    using i that unfolding serviceInv_def by blast
  have a: "\<exists>c. chans (service w) ch = Some c \<and> \<not> closed c" if "ch \<in> watchers (service w)" for ch
    using reg [OF that] ex [of ch] cl [of ch] by auto
  have b: "ch \<notin> watchers (service w)" if "chans (service w) ch = Some c" "closed c" for ch c
    using that cl [of ch c] reg [of ch] by auto
  have c: "ch \<notin> watchers (service w)" if "gone w ch" for ch
    using that reg [of ch] by (auto simp: gone_def)
  have d: "ch \<notin> watchers (service w') \<and> receivedBy w' ch = receivedBy w ch"
    if "gone w ch" "run acts' w = Some w'" for ch acts' w'
  proof -
    from gone_run [OF i that] have g: "gone w' ch" and r: "receivedBy w' ch = receivedBy w ch"
      by simp_all
    have "serviceInv w'"
      using i that(2) by (rule run_inv)
    with g have "ch \<notin> watchers (service w')"
      by (auto simp: serviceInv_def gone_def)
    with r show ?thesis by simp
  qed
  from p a b c d show ?thesis by blast
qed

theorem watchers_open_until_removed_witness:
  "run exampleActions initWorld = Some exampleWorld \<and>
   \<not> panicked exampleWorld \<and>
   watchers (service exampleWorld) = {2} \<and>
   (\<exists>c. chans (service exampleWorld) 2 = Some c \<and> \<not> closed c) \<and>
   (\<exists>c. chans (service exampleWorld) 1 = Some c \<and> closed c) \<and>
   1 \<notin> watchers (service exampleWorld) \<and>
   gone exampleWorld 1 \<and>
   run laterActions exampleWorld = Some laterWorld \<and>
   1 \<notin> watchers (service laterWorld) \<and>
   receivedBy laterWorld 1 = receivedBy exampleWorld 1 \<and>
   receivedBy laterWorld 1 = [created1] \<and>
   receivedBy laterWorld 2 = [\<lparr>UserId = ''u1'', UpdateType = ''DELETED'', UpdatedUser = None\<rparr>]"
proof -
  note t = watchers_open_until_removed [OF run_example]
  have p: "\<not> panicked exampleWorld"
    using t by blast
  have w: "watchers (service exampleWorld) = {2}"
    by (simp add: exampleWorld_def)
  then have "2 \<in> watchers (service exampleWorld)"
    by simp
  with t have o: "\<exists>c. chans (service exampleWorld) 2 = Some c \<and> \<not> closed c"
    by blast
  have cl: "\<exists>c. chans (service exampleWorld) 1 = Some c \<and> closed c"
    by (simp add: exampleWorld_def)
  with t have out: "1 \<notin> watchers (service exampleWorld)"
    by blast
  have g: "gone exampleWorld 1"
    by (simp add: gone_def exampleWorld_def)
  with t run_later have l: "1 \<notin> watchers (service laterWorld) \<and>
      receivedBy laterWorld 1 = receivedBy exampleWorld 1"
    by blast
  have r1: "receivedBy exampleWorld 1 = [created1]"
    by (simp add: receivedBy_def exampleWorld_def)
  have r2: "receivedBy laterWorld 2 =
      [\<lparr>UserId = ''u1'', UpdateType = ''DELETED'', UpdatedUser = None\<rparr>]"
    by (simp add: receivedBy_def laterWorld_def)
  from run_example p w o cl out g run_later l r1 r2 show ?thesis by simp
qed

text \<open>
  C9. Every channel that \<^verbatim>\<open>WatchUsers\<close> registers is unbuffered: in every state of a
  run it has capacity 0 and nothing buffered. So the non-blocking send of
  \<^verbatim>\<open>NotifyUpdate\<close> on an open channel delivers the update exactly when the watcher is
  blocked in its receive at that moment, and drops it otherwise.
\<close>

theorem watch_channels_unbuffered:
  assumes "run acts initWorld = Some w" and "chans (service w) ch = Some c"
  shows "capacity c = 0 \<and> buffer c = [] \<and>
     (\<not> closed c \<longrightarrow>
        trySend upd c =
          (if receiverWaiting c
           then (Sent, c\<lparr>received := received c @ [upd], receiverWaiting := False\<rparr>)
           else (Dropped, c)))"
proof -
  have "serviceInv w"
    using serviceInv_init assms(1) by (rule run_inv)
  with assms(2) have "capacity c = 0" "buffer c = []"
    unfolding serviceInv_def by blast+
  then show ?thesis
    by (simp add: trySend_def accepts_def deliver_def)
qed

theorem watch_channels_unbuffered_witness:
  "run exampleActions initWorld = Some exampleWorld \<and>
   chans (service exampleWorld) 2 = Some (makeChan 0) \<and>
   capacity (makeChan 0 :: UserUpdate chan) = 0 \<and>
   \<not> closed (makeChan 0 :: UserUpdate chan) \<and>
   \<not> receiverWaiting (makeChan 0 :: UserUpdate chan) \<and>
   trySend created1 (makeChan 0) = (Dropped, makeChan 0)"
proof -
  have c: "chans (service exampleWorld) 2 = Some (makeChan 0)"
    by (simp add: exampleWorld_def)
  have n: "\<not> receiverWaiting (makeChan 0 :: UserUpdate chan)"
      "\<not> closed (makeChan 0 :: UserUpdate chan)"
    by (simp_all add: makeChan_def)
  from watch_channels_unbuffered [OF run_example c, of created1] n
  have "capacity (makeChan 0 :: UserUpdate chan) = 0"
    and "trySend created1 (makeChan 0) = (Dropped, makeChan 0)"
    by simp_all
  with run_example c n show ?thesis by simp
qed

end
